theory Spec2Isabelle
  imports Main "HOL-Library.Product_Lexorder"
begin

section \<open>Python values and failures\<close>

text \<open>
  The solver is Python: integers are unbounded (\<open>int\<close>), a grid cell is a one-character
  string (\<open>char\<close>), and an out-of-range subscript or a failed \<open>list.index\<close> raises.
  Every raise of the source is a value \<open>Inl e\<close> of the result type.
\<close>

datatype error = IndexError | ValueError | AttributeError

text \<open>\<open>xs[i]\<close>: a negative subscript counts from the end of the list.\<close>

definition py_index :: "'a list \<Rightarrow> int \<Rightarrow> error + 'a" where
  "py_index xs i =
     (if 0 \<le> i \<and> i < int (length xs) then Inr (xs ! nat i)
      else if i < 0 \<and> - int (length xs) \<le> i then Inr (xs ! nat (int (length xs) + i))
      else Inl IndexError)"

text \<open>\<open>xs.index(x)\<close>: the position of the first occurrence, \<open>ValueError\<close> when there is none.\<close>

fun list_index :: "'a list \<Rightarrow> 'a \<Rightarrow> error + int" where
  "list_index [] x = Inl ValueError"
| "list_index (y # ys) x =
     (if y = x then Inr 0
      else (case list_index ys x of Inl e \<Rightarrow> Inl e | Inr k \<Rightarrow> Inr (k + 1)))"

section \<open>Data model\<close>

text \<open>
  The classes \<open>Car\<close>, \<open>Board\<close> and \<open>State\<close> are imported by \<open>solve.py\<close> from the
  module \<open>board\<close>. The records below hold exactly the attributes that \<open>solve.py\<close> reads
  and writes. Any orientation other than \<open>''h''\<close> is treated as vertical by
  \<open>get_successors\<close>, so the orientation stays a string.
\<close>

record car =
  orientation :: string
  fix_coord :: int
  var_coord :: int
  car_length :: int

record board =
  name :: string
  bsize :: int
  cars :: "car list"
  grid :: "char list list"

datatype state =
  State (s_board: board) (s_hfn: "board \<Rightarrow> error + int") (s_f: int) (s_depth: int)
    (s_parent: "state option") (s_id: int)

text \<open>
  What \<open>solve.py\<close> takes from the module \<open>board\<close> without defining it: the grid that the
  \<open>Board\<close> constructor rebuilds from the vehicle list (it may reject the list), and the
  identity that the \<open>State\<close> constructor derives from the grid. Both are parameters of
  everything that constructs a board or a state.
\<close>

record board_module =
  construct_grid :: "int \<Rightarrow> car list \<Rightarrow> error + char list list"
  grid_id :: "char list list \<Rightarrow> int"

text \<open>Modelled from the spec: \<open>Car.set_coord\<close> replaces the vehicle's \<open>var_coord\<close>
  and nothing else.\<close>

definition set_coord :: "car \<Rightarrow> int \<Rightarrow> car" where
  "set_coord c v = c\<lparr>var_coord := v\<rparr>"

text \<open>Modelled from the spec: the \<open>Board\<close> constructor stores its three arguments and
  rebuilds \<open>grid\<close> from the vehicle list.\<close>

definition Board_init :: "board_module \<Rightarrow> string \<Rightarrow> int \<Rightarrow> car list \<Rightarrow> error + board" where
  "Board_init M nm sz cs =
     (case construct_grid M sz cs of
        Inl e \<Rightarrow> Inl e
      | Inr g \<Rightarrow> Inr \<lparr>name = nm, bsize = sz, cars = cs, grid = g\<rparr>)"

text \<open>Modelled from the spec: the \<open>State\<close> constructor stores its arguments and derives
  the identity from the board's grid contents.\<close>

definition State_init ::
  "board_module \<Rightarrow> board \<Rightarrow> (board \<Rightarrow> error + int) \<Rightarrow> int \<Rightarrow> int \<Rightarrow> state option \<Rightarrow> state" where
  "State_init M b h fv d p = State b h fv d p (grid_id M (grid b))"

text \<open>Modelled from the spec: \<open>zero_heuristic\<close>, the heuristic of uninformed search,
  is 0 on every board.\<close>

definition zero_heuristic :: "board \<Rightarrow> error + int" where
  "zero_heuristic b = Inr 0"

text \<open>\<open>board.grid[r][c]\<close>\<close>

definition cell :: "board \<Rightarrow> int \<Rightarrow> int \<Rightarrow> error + char" where
  "cell b r c = (case py_index (grid b) r of Inl e \<Rightarrow> Inl e | Inr row \<Rightarrow> py_index row c)"

section \<open>Goal test and heuristics\<close>

text \<open>The expression \<open>grid[2][4] == "<" and grid[2][5] == ">"\<close>; \<open>and\<close> reads the second
  cell only when the first comparison holds.\<close>

definition goal_cells :: "board \<Rightarrow> error + bool" where
  "goal_cells b =
     (case cell b 2 4 of
        Inl e \<Rightarrow> Inl e
      | Inr a \<Rightarrow>
          if a = CHR ''<''
          then (case cell b 2 5 of Inl e \<Rightarrow> Inl e | Inr c \<Rightarrow> Inr (c = CHR ''>''))
          else Inr False)"

definition is_goal :: "state \<Rightarrow> error + bool" where
  "is_goal s = goal_cells (s_board s)"

text \<open>The counting loop of \<open>blocking_heuristic\<close> over the indices of its \<open>range\<close>.\<close>

fun count_blocked :: "char list \<Rightarrow> int list \<Rightarrow> int \<Rightarrow> error + int" where
  "count_blocked exitRow [] count = Inr count"
| "count_blocked exitRow (i # rest) count =
     (case py_index exitRow i of
        Inl e \<Rightarrow> Inl e
      | Inr c \<Rightarrow> count_blocked exitRow rest (if c \<noteq> CHR ''.'' then count + 1 else count))"

definition blocking_heuristic :: "board \<Rightarrow> error + int" where
  "blocking_heuristic b =
     (case goal_cells b of
        Inl e \<Rightarrow> Inl e
      | Inr True \<Rightarrow> Inr 0
      | Inr False \<Rightarrow>
          (case py_index (grid b) 2 of
             Inl e \<Rightarrow> Inl e
           | Inr exitRow \<Rightarrow>
               (case list_index exitRow (CHR ''>'') of
                  Inl e \<Rightarrow> Inl e
                | Inr k \<Rightarrow> count_blocked exitRow [k + 1 .. bsize b - 1] 1)))"

text \<open>The glyph tests of \<open>advanced_heuristic\<close>: above the exit row a cell counts when it
  holds one of \<open>v > < -\<close>, below it when it holds one of \<open>^ > < -\<close>.\<close>

definition top_glyph :: "char \<Rightarrow> bool" where
  "top_glyph c = (c = CHR ''v'' \<or> c = CHR ''>'' \<or> c = CHR ''<'' \<or> c = CHR ''-'')"

definition bot_glyph :: "char \<Rightarrow> bool" where
  "bot_glyph c = (c = CHR ''^'' \<or> c = CHR ''>'' \<or> c = CHR ''<'' \<or> c = CHR ''-'')"

text \<open>One \<open>if ...: n += 1\<close> statement: read \<open>grid[r][i]\<close> and add one when the test holds.\<close>

definition bump_if :: "board \<Rightarrow> (char \<Rightarrow> bool) \<Rightarrow> int \<Rightarrow> int \<Rightarrow> int \<Rightarrow> error + int" where
  "bump_if b p r i n =
     (case cell b r i of Inl e \<Rightarrow> Inl e | Inr c \<Rightarrow> Inr (if p c then n + 1 else n))"

text \<open>The guard on line 237, for a blocker glyph \<open>c = grid[2][i]\<close>: \<open>or\<close> reads
  \<open>grid[1][i]\<close> only when \<open>c\<close> is \<open>v\<close> and \<open>grid[3][i]\<close> only when \<open>c\<close> is \<open>^\<close>.\<close>

definition may_go_up :: "board \<Rightarrow> int \<Rightarrow> char \<Rightarrow> error + bool" where
  "may_go_up b i c =
     (if c = CHR ''|'' then Inr False
      else if c = CHR ''v''
      then (case cell b 1 i of Inl e \<Rightarrow> Inl e | Inr u \<Rightarrow> Inr (u \<noteq> CHR ''|''))
      else if c = CHR ''^''
      then (case cell b 3 i of Inl e \<Rightarrow> Inl e | Inr d \<Rightarrow> Inr (d \<noteq> CHR ''|''))
      else Inr True)"

definition num_cars_blocking_up :: "board \<Rightarrow> int \<Rightarrow> char \<Rightarrow> error + int" where
  "num_cars_blocking_up b i c =
     (case may_go_up b i c of
        Inl e \<Rightarrow> Inl e
      | Inr False \<Rightarrow> Inr (int (length (cars b)) + 1)
      | Inr True \<Rightarrow>
          (case bump_if b top_glyph 1 i 0 of
             Inl e \<Rightarrow> Inl e
           | Inr n1 \<Rightarrow> bump_if b top_glyph 0 i n1))"

definition num_cars_blocking_down :: "board \<Rightarrow> int \<Rightarrow> error + int" where
  "num_cars_blocking_down b i =
     (case bump_if b bot_glyph 3 i 0 of
        Inl e \<Rightarrow> Inl e
      | Inr n3 \<Rightarrow>
          (case bump_if b bot_glyph 4 i n3 of
             Inl e \<Rightarrow> Inl e
           | Inr n4 \<Rightarrow> bump_if b bot_glyph 5 i n4))"

text \<open>The body of the loop of \<open>advanced_heuristic\<close> at a non-free cell \<open>c = grid[2][i]\<close>:
  the term added to \<open>num_cars_blocking\<close> before the \<open>break\<close>.\<close>

definition blocker_term :: "board \<Rightarrow> int \<Rightarrow> char \<Rightarrow> error + int" where
  "blocker_term b i c =
     (case num_cars_blocking_up b i c of
        Inl e \<Rightarrow> Inl e
      | Inr up \<Rightarrow>
          (case num_cars_blocking_down b i of
             Inl e \<Rightarrow> Inl e
           | Inr down \<Rightarrow> Inr (min up down)))"

fun advanced_scan :: "board \<Rightarrow> int list \<Rightarrow> int \<Rightarrow> error + int" where
  "advanced_scan b [] num = Inr num"
| "advanced_scan b (i # rest) num =
     (case cell b 2 i of
        Inl e \<Rightarrow> Inl e
      | Inr c \<Rightarrow>
          if c \<noteq> CHR ''.''
          then (case blocker_term b i c of Inl e \<Rightarrow> Inl e | Inr t \<Rightarrow> Inr (num + t))
          else advanced_scan b rest num)"

definition advanced_heuristic :: "board \<Rightarrow> error + int" where
  "advanced_heuristic b =
     (case blocking_heuristic b of
        Inl e \<Rightarrow> Inl e
      | Inr num_cars_blocking \<Rightarrow>
          (case py_index (grid b) 2 of
             Inl e \<Rightarrow> Inl e
           | Inr exitRow \<Rightarrow>
               (case list_index exitRow (CHR ''>'') of
                  Inl e \<Rightarrow> Inl e
                | Inr k \<Rightarrow> advanced_scan b [k + 1 .. bsize b - 1] num_cars_blocking)))"

section \<open>Successor generator\<close>

text \<open>\<open>newState.f = ...\<close>: the assignment to the attribute \<open>f\<close> of a state.\<close>

fun with_f :: "state \<Rightarrow> int \<Rightarrow> state" where
  "with_f (State b h fv d p i) v = State b h v d p i"

text \<open>\<open>addNeighbour\<close> appends to the list \<open>neighbours\<close> that its caller owns; the model
  returns the extended list. The constructor of the board and the heuristic may raise.\<close>

definition addNeighbour ::
  "board_module \<Rightarrow> state \<Rightarrow> car list \<Rightarrow> state list \<Rightarrow> error + state list" where
  "addNeighbour M state cs neighbours =
     (case Board_init M (name (s_board state)) (bsize (s_board state)) cs of
        Inl e \<Rightarrow> Inl e
      | Inr newBoard \<Rightarrow>
          (let newState = State_init M newBoard (s_hfn state) 0 (s_depth state + 1) (Some state)
           in case s_hfn newState newBoard of
                Inl e \<Rightarrow> Inl e
              | Inr h \<Rightarrow> Inr (neighbours @ [with_f newState (h + s_depth newState)])))"

text \<open>One \<open>for\<close> loop of a slide over the coordinates of its \<open>range\<close>: \<open>look\<close> reads the
  grid cell at a coordinate, \<open>dest\<close> gives the \<open>var_coord\<close> passed to \<open>set_coord\<close> on the
  deep copy of the vehicle list; the first non-free cell ends the loop (\<open>break\<close>).\<close>

fun slide ::
  "board_module \<Rightarrow> state \<Rightarrow> nat \<Rightarrow> (int \<Rightarrow> error + char) \<Rightarrow> (int \<Rightarrow> int) \<Rightarrow> int list
     \<Rightarrow> state list \<Rightarrow> error + state list" where
  "slide M state i look dest [] neighbours = Inr neighbours"
| "slide M state i look dest (y # ys) neighbours =
     (case look y of
        Inl e \<Rightarrow> Inl e
      | Inr c \<Rightarrow>
          if c = CHR ''.''
          then (case addNeighbour M state
                       ((cars (s_board state))
                          [i := set_coord (cars (s_board state) ! i) (dest y)])
                       neighbours of
                  Inl e \<Rightarrow> Inl e
                | Inr neighbours1 \<Rightarrow> slide M state i look dest ys neighbours1)
          else Inr neighbours)"

text \<open>\<open>range(varCoord - 1, -1, -1)\<close> is \<open>rev [0 .. varCoord - 1]\<close> and
  \<open>range(a, board.size)\<close> is \<open>[a .. size - 1]\<close>. \<open>board.cars[i]\<close> raises outside the list.\<close>

definition addVerticalNeighbours ::
  "board_module \<Rightarrow> state \<Rightarrow> nat \<Rightarrow> state list \<Rightarrow> error + state list" where
  "addVerticalNeighbours M state i neighbours =
     (let board = s_board state in
      if i < length (cars board)
      then (let car = cars board ! i; varCoord = var_coord car in
            case slide M state i (\<lambda>yCoord. cell board yCoord (fix_coord car)) (\<lambda>yCoord. yCoord)
                   (rev [0 .. varCoord - 1]) neighbours of
              Inl e \<Rightarrow> Inl e
            | Inr neighbours1 \<Rightarrow>
                slide M state i (\<lambda>yCoord. cell board yCoord (fix_coord car))
                  (\<lambda>yCoord. yCoord - car_length car + 1)
                  [var_coord car + car_length car .. bsize board - 1] neighbours1)
      else Inl IndexError)"

definition addHorizontalNeighbours ::
  "board_module \<Rightarrow> state \<Rightarrow> nat \<Rightarrow> state list \<Rightarrow> error + state list" where
  "addHorizontalNeighbours M state i neighbours =
     (let board = s_board state in
      if i < length (cars board)
      then (let car = cars board ! i; varCoord = var_coord car in
            case slide M state i (\<lambda>xCoord. cell board (fix_coord car) xCoord) (\<lambda>xCoord. xCoord)
                   (rev [0 .. varCoord - 1]) neighbours of
              Inl e \<Rightarrow> Inl e
            | Inr neighbours1 \<Rightarrow>
                slide M state i (\<lambda>xCoord. cell board (fix_coord car) xCoord)
                  (\<lambda>xCoord. xCoord - car_length car + 1)
                  [var_coord car + car_length car .. bsize board - 1] neighbours1)
      else Inl IndexError)"

fun successors_loop ::
  "board_module \<Rightarrow> state \<Rightarrow> nat list \<Rightarrow> state list \<Rightarrow> error + state list" where
  "successors_loop M state [] neighbours = Inr neighbours"
| "successors_loop M state (i # rest) neighbours =
     (case (if orientation (cars (s_board state) ! i) = ''h''
            then addHorizontalNeighbours M state i neighbours
            else addVerticalNeighbours M state i neighbours) of
        Inl e \<Rightarrow> Inl e
      | Inr neighbours1 \<Rightarrow> successors_loop M state rest neighbours1)"

definition get_successors :: "board_module \<Rightarrow> state \<Rightarrow> error + state list" where
  "get_successors M state =
     successors_loop M state [0 ..< length (cars (s_board state))] []"

section \<open>Path reconstruction\<close>

text \<open>The \<open>while s is not None\<close> loop of \<open>get_path\<close>: the state, its parent, and so on.\<close>

fun parents :: "state \<Rightarrow> state list" where
  "parents (State b h fv d p i) =
     State b h fv d p i # (case p of None \<Rightarrow> [] | Some q \<Rightarrow> parents q)"

definition get_path :: "state \<Rightarrow> state list" where
  "get_path state = rev (parents state)"

section \<open>Search\<close>

text \<open>
  The frontier of \<open>a_star\<close> is a \<open>heapq\<close> of pairs \<open>((f, id, parent id), state)\<close>. The heap
  is modelled by its contract: \<open>heappush\<close> adds an entry, \<open>heappop\<close> removes and returns an
  entry with the least key. Python compares two entries with equal keys by comparing the
  \<open>State\<close> objects, which the module \<open>board\<close> defines; the model returns the one pushed
  first.
\<close>

type_synonym entry = "(int \<times> int \<times> int) \<times> state"

definition heappush :: "entry list \<Rightarrow> entry \<Rightarrow> entry list" where
  "heappush heap item = heap @ [item]"

fun pop_min :: "entry \<Rightarrow> entry list \<Rightarrow> entry \<times> entry list" where
  "pop_min x [] = (x, [])"
| "pop_min x (y # ys) =
     (case pop_min y ys of
        (m, rest) \<Rightarrow> if fst m < fst x then (m, x # rest) else (x, y # ys))"

definition heappop :: "entry list \<Rightarrow> error + entry \<times> entry list" where
  "heappop heap = (case heap of [] \<Rightarrow> Inl IndexError | x # xs \<Rightarrow> Inr (pop_min x xs))"

text \<open>\<open>neighbour.parent.id\<close>: an attribute of \<open>None\<close> when the state has no parent.\<close>

definition parent_id :: "state \<Rightarrow> error + int" where
  "parent_id s = (case s_parent s of None \<Rightarrow> Inl AttributeError | Some p \<Rightarrow> Inr (s_id p))"

fun push_neighbours :: "entry list \<Rightarrow> state list \<Rightarrow> error + entry list" where
  "push_neighbours frontier [] = Inr frontier"
| "push_neighbours frontier (neighbour # rest) =
     (case parent_id neighbour of
        Inl e \<Rightarrow> Inl e
      | Inr pid \<Rightarrow>
          push_neighbours
            (heappush frontier ((s_f neighbour, s_id neighbour, pid), neighbour)) rest)"

text \<open>One pass through the body of a search loop either returns or goes round again.\<close>

datatype ('r, 'c) iter = Return 'r | Again 'c

definition a_star_iter ::
  "board_module \<Rightarrow> entry list \<Rightarrow> state list
     \<Rightarrow> error + (state list \<times> int, entry list \<times> state list) iter" where
  "a_star_iter M frontier explored =
     (case heappop frontier of
        Inl e \<Rightarrow> Inl e
      | Inr (item, frontier1) \<Rightarrow>
          (let state = snd item in
           if \<not> list_ex (\<lambda>s. s_id s = s_id state) explored
           then (case is_goal state of
                   Inl e \<Rightarrow> Inl e
                 | Inr True \<Rightarrow>
                     (let path = get_path state in Inr (Return (path, int (length path) - 1)))
                 | Inr False \<Rightarrow>
                     (case get_successors M state of
                        Inl e \<Rightarrow> Inl e
                      | Inr neighbours \<Rightarrow>
                          (case push_neighbours frontier1 neighbours of
                             Inl e \<Rightarrow> Inl e
                           | Inr frontier2 \<Rightarrow> Inr (Again (frontier2, explored @ [state])))))
           else Inr (Again (frontier1, explored))))"

partial_function (option) a_star_loop ::
  "board_module \<Rightarrow> entry list \<Rightarrow> state list \<Rightarrow> (error + state list \<times> int) option" where
  "a_star_loop M frontier explored =
     (if length frontier \<noteq> 0
      then (case a_star_iter M frontier explored of
              Inl e \<Rightarrow> Some (Inl e)
            | Inr (Return r) \<Rightarrow> Some (Inr r)
            | Inr (Again (frontier1, explored1)) \<Rightarrow> a_star_loop M frontier1 explored1)
      else Some (Inr ([], - 1)))"

declare a_star_loop.simps [code]

definition a_star ::
  "board_module \<Rightarrow> board \<Rightarrow> (board \<Rightarrow> error + int) \<Rightarrow> (error + state list \<times> int) option" where
  "a_star M init_board hfn =
     (case hfn init_board of
        Inl e \<Rightarrow> Some (Inl e)
      | Inr h \<Rightarrow>
          (let init_state = State_init M init_board hfn h 0 None
           in a_star_loop M
                (heappush [] ((s_f init_state, s_id init_state, 0), init_state)) []))"

text \<open>\<open>dfs\<close>: the frontier is a list used as a stack, \<open>pop()\<close> takes its last element.
  \<open>sort(key = id, reverse = True)\<close> is stable: states with equal identities keep their
  order.\<close>

definition dfs_iter ::
  "board_module \<Rightarrow> state list \<Rightarrow> state list
     \<Rightarrow> error + (state list \<times> int, state list \<times> state list) iter" where
  "dfs_iter M frontier explored =
     (if frontier = [] then Inl IndexError
      else (let state = last frontier; frontier1 = butlast frontier in
            if \<not> list_ex (\<lambda>s. s_id s = s_id state) explored
            then (case is_goal state of
                    Inl e \<Rightarrow> Inl e
                  | Inr True \<Rightarrow>
                      (let path = get_path state in Inr (Return (path, int (length path) - 1)))
                  | Inr False \<Rightarrow>
                      (case get_successors M state of
                         Inl e \<Rightarrow> Inl e
                       | Inr neighbours \<Rightarrow>
                           Inr (Again (frontier1 @ sort_key (\<lambda>n. - s_id n) neighbours,
                                       explored @ [state]))))
            else Inr (Again (frontier1, explored))))"

partial_function (option) dfs_loop ::
  "board_module \<Rightarrow> state list \<Rightarrow> state list \<Rightarrow> (error + state list \<times> int) option" where
  "dfs_loop M frontier explored =
     (if length frontier \<noteq> 0
      then (case dfs_iter M frontier explored of
              Inl e \<Rightarrow> Some (Inl e)
            | Inr (Return r) \<Rightarrow> Some (Inr r)
            | Inr (Again (frontier1, explored1)) \<Rightarrow> dfs_loop M frontier1 explored1)
      else Some (Inr ([], - 1)))"

declare dfs_loop.simps [code]

definition dfs :: "board_module \<Rightarrow> board \<Rightarrow> (error + state list \<times> int) option" where
  "dfs M init_board = dfs_loop M [State_init M init_board zero_heuristic 0 0 None] []"

text \<open>\<open>a_star_node_expanded\<close>: the loop of \<open>a_star\<close> with the counter \<open>count\<close>, incremented
  after every \<open>heappop\<close>.\<close>

definition a_star_node_expanded_iter ::
  "board_module \<Rightarrow> entry list \<Rightarrow> state list \<Rightarrow> int
     \<Rightarrow> error + (state list \<times> int \<times> int, entry list \<times> state list \<times> int) iter" where
  "a_star_node_expanded_iter M frontier explored count0 =
     (case heappop frontier of
        Inl e \<Rightarrow> Inl e
      | Inr (item, frontier1) \<Rightarrow>
          (let state = snd item; count = count0 + 1 in
           if \<not> list_ex (\<lambda>s. s_id s = s_id state) explored
           then (case is_goal state of
                   Inl e \<Rightarrow> Inl e
                 | Inr True \<Rightarrow>
                     (let path = get_path state
                      in Inr (Return (path, int (length path) - 1, count)))
                 | Inr False \<Rightarrow>
                     (case get_successors M state of
                        Inl e \<Rightarrow> Inl e
                      | Inr neighbours \<Rightarrow>
                          (case push_neighbours frontier1 neighbours of
                             Inl e \<Rightarrow> Inl e
                           | Inr frontier2 \<Rightarrow>
                               Inr (Again (frontier2, explored @ [state], count)))))
           else Inr (Again (frontier1, explored, count))))"

partial_function (option) a_star_node_expanded_loop ::
  "board_module \<Rightarrow> entry list \<Rightarrow> state list \<Rightarrow> int
     \<Rightarrow> (error + state list \<times> int \<times> int) option" where
  "a_star_node_expanded_loop M frontier explored count =
     (if length frontier \<noteq> 0
      then (case a_star_node_expanded_iter M frontier explored count of
              Inl e \<Rightarrow> Some (Inl e)
            | Inr (Return r) \<Rightarrow> Some (Inr r)
            | Inr (Again (frontier1, explored1, count1)) \<Rightarrow>
                a_star_node_expanded_loop M frontier1 explored1 count1)
      else Some (Inr ([], - 1, - 1)))"

declare a_star_node_expanded_loop.simps [code]

definition a_star_node_expanded ::
  "board_module \<Rightarrow> board \<Rightarrow> (board \<Rightarrow> error + int)
     \<Rightarrow> (error + state list \<times> int \<times> int) option" where
  "a_star_node_expanded M init_board hfn =
     (case hfn init_board of
        Inl e \<Rightarrow> Some (Inl e)
      | Inr h \<Rightarrow>
          (let init_state = State_init M init_board hfn h 0 None
           in a_star_node_expanded_loop M
                (heappush [] ((s_f init_state, s_id init_state, 0), init_state)) [] 0))"

section \<open>An instance of the board module\<close>

text \<open>Modelled from the spec: a grid builder that satisfies the Board invariant (the
  occupied cells are exactly the vehicles' cells, every vehicle lies inside the grid, a
  vehicle list that does not fit is rejected), with the glyphs that the heuristics read:
  \<open><\<close>, \<open>-\<close>, \<open>>\<close> along a horizontal vehicle and \<open>^\<close>, \<open>|\<close>, \<open>v\<close> along a vertical one.
  The theorems below hold for every board module; this instance evaluates them on
  concrete boards.\<close>

definition car_covers :: "car \<Rightarrow> int \<Rightarrow> int \<Rightarrow> bool" where
  "car_covers v r c =
     (if orientation v = ''h''
      then r = fix_coord v \<and> var_coord v \<le> c \<and> c < var_coord v + car_length v
      else c = fix_coord v \<and> var_coord v \<le> r \<and> r < var_coord v + car_length v)"

definition car_glyph :: "car \<Rightarrow> int \<Rightarrow> int \<Rightarrow> char" where
  "car_glyph v r c =
     (if orientation v = ''h''
      then (if c = var_coord v + car_length v - 1 then CHR ''>''
            else if c = var_coord v then CHR ''<'' else CHR ''-'')
      else (if r = var_coord v + car_length v - 1 then CHR ''v''
            else if r = var_coord v then CHR ''^'' else CHR ''|''))"

definition glyph_at :: "car list \<Rightarrow> int \<Rightarrow> int \<Rightarrow> char" where
  "glyph_at cs r c =
     foldl (\<lambda>g v. if car_covers v r c then car_glyph v r c else g) (CHR ''.'') cs"

definition car_in_bounds :: "int \<Rightarrow> car \<Rightarrow> bool" where
  "car_in_bounds sz v =
     (0 \<le> fix_coord v \<and> fix_coord v < sz \<and> 0 \<le> var_coord v \<and> 1 \<le> car_length v
      \<and> var_coord v + car_length v \<le> sz)"

definition standard_grid :: "int \<Rightarrow> car list \<Rightarrow> error + char list list" where
  "standard_grid sz cs =
     (if list_all (car_in_bounds sz) cs
      then Inr (map (\<lambda>r. map (\<lambda>c. glyph_at cs r c) [0 .. sz - 1]) [0 .. sz - 1])
      else Inl IndexError)"

definition standard_id :: "char list list \<Rightarrow> int" where
  "standard_id g = foldl (\<lambda>a c. a * 256 + int (of_char c)) 0 (concat g)"

definition standard_module :: board_module where
  "standard_module = \<lparr>construct_grid = standard_grid, grid_id = standard_id\<rparr>"

text \<open>Boards of the canonical size 6, written as the grids the builder produces.\<close>

definition mk_board :: "car list \<Rightarrow> char list list \<Rightarrow> board" where
  "mk_board cs g = \<lparr>name = ''jam'', bsize = 6, cars = cs, grid = g\<rparr>"

definition hcar :: "int \<Rightarrow> int \<Rightarrow> int \<Rightarrow> car" where
  "hcar row col len = \<lparr>orientation = ''h'', fix_coord = row, var_coord = col, car_length = len\<rparr>"

definition vcar :: "int \<Rightarrow> int \<Rightarrow> int \<Rightarrow> car" where
  "vcar col row len = \<lparr>orientation = ''v'', fix_coord = col, var_coord = row, car_length = len\<rparr>"

text \<open>A board is square when its grid has \<open>size\<close> rows of \<open>size\<close> cells, which is how
  the data model describes every constructed board.\<close>

definition square_grid :: "board \<Rightarrow> bool" where
  "square_grid b =
     (int (length (grid b)) = bsize b \<and> list_all (\<lambda>row. int (length row) = bsize b) (grid b))"

text \<open>Example boards.\<close>

definition ex1 :: board where
  "ex1 = mk_board [hcar 2 1 2, vcar 3 1 3, vcar 5 2 2, hcar 0 2 3]
    [''..<->.'', ''...^..'', ''.<>|.^'', ''...v.v'', ''......'', ''......'']"

definition ex_state :: "board \<Rightarrow> state" where
  "ex_state b = State_init standard_module b blocking_heuristic 0 0 None"

definition ex3 :: board where
  "ex3 = mk_board [hcar 2 0 2, vcar 2 0 5, hcar 5 2 2]
    [''..^...'', ''..|...'', ''<>|...'', ''..|...'', ''..v...'', ''..<>..'']"

definition ex4 :: board where
  "ex4 = mk_board [hcar 2 1 2, vcar 4 2 2, hcar 1 3 3, hcar 4 4 2]
    [''......'', ''...<->'', ''.<>.^.'', ''....v.'', ''....<>'', ''......'']"

definition ex4_renamed :: board where
  "ex4_renamed = ex4\<lparr>name := ''other''\<rparr>"

definition ex5 :: board where
  "ex5 = mk_board [vcar 3 1 3, hcar 4 0 2]
    [''......'', ''...^..'', ''...|..'', ''...v..'', ''<>....'', ''......'']"

definition ex6 :: board where
  "ex6 = mk_board [hcar 2 0 2, vcar 4 0 2, vcar 4 2 2, hcar 4 3 2, hcar 5 4 2]
    [''....^.'', ''....v.'', ''<>..^.'', ''....v.'', ''...<>.'', ''....<>'']"

definition ex7 :: board where
  "ex7 = mk_board [hcar 2 1 2, vcar 0 0 2]
    [''^.....'', ''v.....'', ''.<>...'', ''......'', ''......'', ''......'']"

text \<open>What \<open>addNeighbour\<close> appends.\<close>

definition child_of :: "board_module \<Rightarrow> state \<Rightarrow> car list \<Rightarrow> state \<Rightarrow> bool" where
  "child_of M s cs n =
     (s_parent n = Some s \<and> s_depth n = s_depth s + 1 \<and> s_hfn n = s_hfn s
      \<and> s_hfn s (s_board n) = Inr (s_f n - s_depth n)
      \<and> cars (s_board n) = cs \<and> name (s_board n) = name (s_board s)
      \<and> bsize (s_board n) = bsize (s_board s)
      \<and> construct_grid M (bsize (s_board s)) cs = Inr (grid (s_board n))
      \<and> s_id n = grid_id M (grid (s_board n)))"

text \<open>The cell a slide of vehicle \<open>i\<close> looks at, at coordinate \<open>y\<close> of its moving axis.\<close>

definition look_cell :: "state \<Rightarrow> nat \<Rightarrow> int \<Rightarrow> error + char" where
  "look_cell s i y =
     (if orientation (cars (s_board s) ! i) = ''h''
      then cell (s_board s) (fix_coord (cars (s_board s) ! i)) y
      else cell (s_board s) y (fix_coord (cars (s_board s) ! i)))"

definition moved :: "state \<Rightarrow> nat \<Rightarrow> int \<Rightarrow> car list" where
  "moved s i v = (cars (s_board s))[i := (cars (s_board s) ! i)\<lparr>var_coord := v\<rparr>]"

definition neg_run :: "state \<Rightarrow> nat \<Rightarrow> int list" where
  "neg_run s i =
     takeWhile (\<lambda>y. look_cell s i y = Inr (CHR ''.''))
       (rev [0 .. var_coord (cars (s_board s) ! i) - 1])"

definition pos_run :: "state \<Rightarrow> nat \<Rightarrow> int list" where
  "pos_run s i =
     takeWhile (\<lambda>y. look_cell s i y = Inr (CHR ''.''))
       [var_coord (cars (s_board s) ! i) + car_length (cars (s_board s) ! i)
          .. bsize (s_board s) - 1]"

definition moves_of :: "board_module \<Rightarrow> state \<Rightarrow> nat \<Rightarrow> state list \<Rightarrow> bool" where
  "moves_of M s i blk =
     (\<exists>r1 r2. blk = r1 @ r2
        \<and> list_all2 (\<lambda>y n. child_of M s (moved s i y) n) (neg_run s i) r1
        \<and> list_all2 (\<lambda>y n. child_of M s
              (moved s i (y - car_length (cars (s_board s) ! i) + 1)) n) (pos_run s i) r2)"

text \<open>A move of vehicle \<open>i\<close> to \<open>var_coord = v\<close> sweeps free cells only.\<close>

definition clear_move :: "state \<Rightarrow> nat \<Rightarrow> int \<Rightarrow> bool" where
  "clear_move s i v =
     ((v < var_coord (cars (s_board s) ! i)
         \<and> (\<forall>y. v \<le> y \<and> y < var_coord (cars (s_board s) ! i)
               \<longrightarrow> look_cell s i y = Inr (CHR ''.'')))
      \<or> (var_coord (cars (s_board s) ! i) < v
         \<and> (\<forall>y. var_coord (cars (s_board s) ! i) + car_length (cars (s_board s) ! i) \<le> y
                  \<and> y \<le> v + car_length (cars (s_board s) ! i) - 1
               \<longrightarrow> look_cell s i y = Inr (CHR ''.''))))"

definition ex8 :: board where
  "ex8 = mk_board [hcar 2 0 2, vcar 4 1 3]
    [''......'', ''....^.'', ''<>..|.'', ''....v.'', ''......'', ''......'']"

definition ex8_succs :: "state list" where
  "ex8_succs =
     (case get_successors standard_module (ex_state ex8) of Inl e \<Rightarrow> [] | Inr ns \<Rightarrow> ns)"

text \<open>The instrumented search as the interface describes it: the loop of \<open>a_star\<close> together
  with the number of nodes popped from the frontier, reported at either exit.\<close>

partial_function (option) a_star_counting_loop ::
  "board_module \<Rightarrow> entry list \<Rightarrow> state list \<Rightarrow> int
     \<Rightarrow> (error + state list \<times> int \<times> int) option" where
  "a_star_counting_loop M frontier explored popped =
     (if length frontier \<noteq> 0
      then (case a_star_iter M frontier explored of
              Inl e \<Rightarrow> Some (Inl e)
            | Inr (Return (path, cost)) \<Rightarrow> Some (Inr (path, cost, popped + 1))
            | Inr (Again (frontier1, explored1)) \<Rightarrow>
                a_star_counting_loop M frontier1 explored1 (popped + 1))
      else Some (Inr ([], - 1, popped)))"

declare a_star_counting_loop.simps [code]

definition a_star_counting ::
  "board_module \<Rightarrow> board \<Rightarrow> (board \<Rightarrow> error + int)
     \<Rightarrow> (error + state list \<times> int \<times> int) option" where
  "a_star_counting M init_board hfn =
     (case hfn init_board of
        Inl e \<Rightarrow> Some (Inl e)
      | Inr h \<Rightarrow>
          (let init_state = State_init M init_board hfn h 0 None
           in a_star_counting_loop M
                (heappush [] ((s_f init_state, s_id init_state, 0), init_state)) [] 0))"

definition ex9 :: board where
  "ex9 = mk_board [] [''......'', ''......'', ''......'', ''......'', ''......'', ''......'']"

definition ex10 :: board where
  "ex10 = mk_board [hcar 2 0 2]
     [''......'', ''......'', ''<>....'', ''......'', ''......'', ''......'']"

definition drop_count :: "error + state list \<times> int \<times> int \<Rightarrow> error + state list \<times> int" where
  "drop_count r = (case r of Inl e \<Rightarrow> Inl e | Inr (p, c, k) \<Rightarrow> Inr (p, c))"

text \<open>One pass of a search loop that goes round again, as a relation on the pairs of
  frontier and explored list.\<close>

definition a_star_next ::
  "board_module \<Rightarrow> entry list \<times> state list \<Rightarrow> entry list \<times> state list \<Rightarrow> bool" where
  "a_star_next M c c' =
     (length (fst c) \<noteq> 0 \<and> a_star_iter M (fst c) (snd c) = Inr (Again c'))"

definition dfs_next ::
  "board_module \<Rightarrow> state list \<times> state list \<Rightarrow> state list \<times> state list \<Rightarrow> bool" where
  "dfs_next M c c' =
     (length (fst c) \<noteq> 0 \<and> dfs_iter M (fst c) (snd c) = Inr (Again c'))"

definition ex11 :: board where
  "ex11 = mk_board [hcar 2 4 2]
     [''......'', ''......'', ''....<>'', ''......'', ''......'', ''......'']"

definition ex10_succs :: "state list" where
  "ex10_succs =
     (case get_successors standard_module (ex_state ex10) of Inl e \<Rightarrow> [] | Inr ns \<Rightarrow> ns)"

text \<open>The entry that \<open>a_star\<close> pushes for its initial state.\<close>

definition init_entry :: "state \<Rightarrow> entry" where
  "init_entry s = ((s_f s, s_id s, 0), s)"




text \<open>The result with which the loop of \<open>dfs\<close> leaves at a pair of frontier and explored
  list, if it leaves there: exhaustion, a goal, or a raise.\<close>

definition dfs_final ::
  "board_module \<Rightarrow> state list \<times> state list \<Rightarrow> (error + state list \<times> int) option" where
  "dfs_final M c =
     (if length (fst c) \<noteq> 0
      then (case dfs_iter M (fst c) (snd c) of
              Inl e \<Rightarrow> Some (Inl e)
            | Inr (Return r) \<Rightarrow> Some (Inr r)
            | Inr (Again c') \<Rightarrow> None)
      else Some (Inr ([], - 1)))"

definition ex10_root :: state where
  "ex10_root = State_init standard_module ex10 zero_heuristic 0 0 None"

definition ex10_children :: "state list" where
  "ex10_children =
     (case get_successors standard_module ex10_root of Inl e \<Rightarrow> [] | Inr ns \<Rightarrow> ns)"

definition ex10_first :: state where
  "ex10_first = last (sort_key (\<lambda>n. - s_id n) ex10_children)"








section \<open>Python subscripts and searches\<close>

lemma list_index_Inr:
  "list_index xs x = Inr k \<Longrightarrow> 0 \<le> k \<and> nat k < length xs \<and> xs ! nat k = x"
proof (induction xs arbitrary: k)
  case Nil
  then show ?case by simp
next
  case (Cons y ys)
  show ?case
  proof (cases "y = x")
    case True
    with Cons.prems show ?thesis by simp
  next
    case False
    with Cons.prems obtain j where j: "list_index ys x = Inr j" and k: "k = j + 1"
      by (auto split: sum.splits)
    from Cons.IH [OF j] k show ?thesis
      by (simp add: nat_add_distrib)
  qed
qed

lemma list_index_Inl: "list_index xs x = Inl e \<Longrightarrow> e = ValueError \<and> x \<notin> set xs"
  by (induction xs) (auto split: if_splits sum.splits)

lemma list_index_mem: "x \<in> set xs \<Longrightarrow> \<exists>k. list_index xs x = Inr k"
  by (induction xs) auto

lemma count_blocked_upto:
  "0 \<le> i \<Longrightarrow> j < int (length row) \<Longrightarrow>
   count_blocked row [i .. j] n =
     Inr (n + int (length (filter (\<lambda>c. c \<noteq> CHR ''.'') (drop (nat i) (take (nat (j + 1)) row)))))"
proof (induction "nat (j + 1 - i)" arbitrary: i n)
  case 0
  then have "j < i" by simp
  then show ?case by (simp add: drop_take)
next
  case (Suc m)
  then have le: "i \<le> j" by simp
  have idx: "py_index row i = Inr (row ! nat i)"
    using Suc.prems le by (simp add: py_index_def)
  have m: "m = nat (j + 1 - (i + 1))" using Suc.hyps(2) by simp
  have step: "drop (nat i) (take (nat (j + 1)) row)
                = row ! nat i # drop (nat (i + 1)) (take (nat (j + 1)) row)"
    using Suc.prems le
    by (simp add: Cons_nth_drop_Suc [symmetric] nat_add_distrib)
  show ?case
    using Suc.hyps(1) [OF m, of "if row ! nat i \<noteq> CHR ''.'' then n + 1 else n"] Suc.prems le
    by (simp add: upto_rec1 [of i j] idx step)
qed


lemma py_index_in_range:
  "0 \<le> i \<Longrightarrow> i < int (length xs) \<Longrightarrow> py_index xs i = Inr (xs ! nat i)"
  by (simp add: py_index_def)

lemma py_index_Inr_mem: "py_index xs i = Inr x \<Longrightarrow> x \<in> set xs"
  by (auto simp: py_index_def split: if_splits)

lemma square_grid_row:
  "square_grid b \<Longrightarrow> py_index (grid b) r = Inr row \<Longrightarrow> int (length row) = bsize b"
  using py_index_Inr_mem [of "grid b" r row] by (auto simp: square_grid_def list_all_iff)

lemma square_grid_cell:
  assumes "square_grid b" "0 \<le> r" "r < bsize b" "0 \<le> c" "c < bsize b"
  shows "cell b r c = Inr (grid b ! nat r ! nat c)"
proof -
  from assms have r: "py_index (grid b) r = Inr (grid b ! nat r)"
    by (simp add: py_index_in_range square_grid_def)
  from square_grid_row [OF assms(1) r] assms show ?thesis
    by (simp add: cell_def r py_index_in_range)
qed







lemma bump_if_bounds: "bump_if b p r i n = Inr m \<Longrightarrow> n \<le> m \<and> m \<le> n + 1"
  by (auto simp: bump_if_def split: sum.splits if_splits)

lemma num_cars_blocking_up_nonneg: "num_cars_blocking_up b i c = Inr u \<Longrightarrow> 0 \<le> u"
  by (auto simp: num_cars_blocking_up_def split: sum.splits bool.splits dest!: bump_if_bounds)

lemma num_cars_blocking_down_nonneg: "num_cars_blocking_down b i = Inr d \<Longrightarrow> 0 \<le> d"
  by (auto simp: num_cars_blocking_down_def split: sum.splits dest!: bump_if_bounds)

lemma blocker_term_nonneg: "blocker_term b i c = Inr t \<Longrightarrow> 0 \<le> t"
  by (auto simp: blocker_term_def split: sum.splits
      dest!: num_cars_blocking_up_nonneg num_cars_blocking_down_nonneg)

lemma advanced_scan_ge: "advanced_scan b js n = Inr m \<Longrightarrow> n \<le> m"
proof (induction js)
  case Nil
  then show ?case by simp
next
  case (Cons j js)
  then show ?case
    by (auto split: sum.splits if_splits dest!: blocker_term_nonneg)
qed

lemma advanced_ge_blocking:
  assumes "blocking_heuristic b = Inr x" "advanced_heuristic b = Inr y"
  shows "x \<le> y"
proof -
  from assms obtain js where "advanced_scan b js x = Inr y"
    by (auto simp: advanced_heuristic_def split: sum.splits)
  then show ?thesis by (rule advanced_scan_ge)
qed

text \<open>Congruence: every function of a heuristic reads the grid, the size and the number of
  vehicles only.\<close>

lemma cell_cong: "grid b1 = grid b2 \<Longrightarrow> cell b1 = cell b2"
  by (intro ext) (simp add: cell_def)

lemma goal_cells_cong: "grid b1 = grid b2 \<Longrightarrow> goal_cells b1 = goal_cells b2"
  unfolding goal_cells_def by (drule cell_cong) (erule ssubst, rule refl)

lemma blocking_cong:
  assumes "grid b1 = grid b2" "bsize b1 = bsize b2"
  shows "blocking_heuristic b1 = blocking_heuristic b2"
  unfolding blocking_heuristic_def goal_cells_cong [OF assms(1)] assms ..

lemma blocker_term_cong:
  assumes "grid b1 = grid b2" "length (cars b1) = length (cars b2)"
  shows "blocker_term b1 = blocker_term b2"
  unfolding blocker_term_def num_cars_blocking_up_def num_cars_blocking_down_def
    may_go_up_def bump_if_def cell_cong [OF assms(1)] assms(2) ..

lemma advanced_scan_cong:
  assumes "grid b1 = grid b2" "length (cars b1) = length (cars b2)"
  shows "advanced_scan b1 js n = advanced_scan b2 js n"
proof (induction js)
  case Nil
  show ?case by simp
next
  case (Cons j js)
  show ?case
    unfolding advanced_scan.simps cell_cong [OF assms(1)] blocker_term_cong [OF assms] Cons.IH ..
qed

lemma advanced_cong:
  assumes "grid b1 = grid b2" "length (cars b1) = length (cars b2)" "bsize b1 = bsize b2"
  shows "advanced_heuristic b1 = advanced_heuristic b2"
  unfolding advanced_heuristic_def blocking_cong [OF assms(1,3)] assms(1,3)
    advanced_scan_cong [OF assms(1,2)] ..

text \<open>C2: whenever both heuristics return a number on a board, the advanced value is at
  least the blocking value; and on square boards with identical grids and identical vehicle
  lists \<open>advanced_heuristic\<close> returns the same result (it reads the grid, the size and the
  number of vehicles, nothing else).\<close>

theorem advanced_heuristic_dominates:
  "(blocking_heuristic b = Inr x \<and> advanced_heuristic b = Inr y \<longrightarrow> x \<le> y)
   \<and> (square_grid b1 \<and> square_grid b2 \<and> grid b1 = grid b2 \<and> cars b1 = cars b2
      \<longrightarrow> advanced_heuristic b1 = advanced_heuristic b2)"
proof (intro conjI impI)
  assume "blocking_heuristic b = Inr x \<and> advanced_heuristic b = Inr y"
  then show "x \<le> y" using advanced_ge_blocking by blast
next
  assume a: "square_grid b1 \<and> square_grid b2 \<and> grid b1 = grid b2 \<and> cars b1 = cars b2"
  then have "int (length (grid b1)) = bsize b1" "int (length (grid b2)) = bsize b2"
    unfolding square_grid_def by blast+
  with a have "bsize b1 = bsize b2" by metis
  with a show "advanced_heuristic b1 = advanced_heuristic b2"
    by (intro advanced_cong) simp_all
qed

theorem advanced_heuristic_dominates_witness:
  "blocking_heuristic ex4 = Inr 2 \<and> advanced_heuristic ex4 = Inr 3 \<and> (2::int) \<le> 3
   \<and> square_grid ex4 \<and> square_grid ex4_renamed
   \<and> grid ex4 = grid ex4_renamed \<and> cars ex4 = cars ex4_renamed
   \<and> advanced_heuristic ex4 = advanced_heuristic ex4_renamed"
proof -
  have h1: "blocking_heuristic ex4 = Inr 2 \<and> advanced_heuristic ex4 = Inr 3" by code_simp
  have h2: "square_grid ex4 \<and> square_grid ex4_renamed
     \<and> grid ex4 = grid ex4_renamed \<and> cars ex4 = cars ex4_renamed"
    by (simp add: square_grid_def ex4_renamed_def ex4_def mk_board_def)
  from advanced_heuristic_dominates [of ex4 2 3 ex4 ex4_renamed] h1 h2
  show ?thesis by blast
qed

lemma list_index_absent: "x \<notin> set xs \<Longrightarrow> list_index xs x = Inl ValueError"
  by (induction xs) auto

lemma blocker_term_square:
  assumes sq: "square_grid b" and six: "6 \<le> bsize b" and i: "0 \<le> i" "i < bsize b"
  shows "blocker_term b i c =
     Inr (min (if c = CHR ''|'' \<or> (c = CHR ''v'' \<and> grid b ! 1 ! nat i = CHR ''|'')
                  \<or> (c = CHR ''^'' \<and> grid b ! 3 ! nat i = CHR ''|'')
               then int (length (cars b)) + 1
               else int (length (filter top_glyph [grid b ! 1 ! nat i, grid b ! 0 ! nat i])))
              (int (length (filter bot_glyph
                 [grid b ! 3 ! nat i, grid b ! 4 ! nat i, grid b ! 5 ! nat i]))))"
proof -
  have c0: "cell b 0 i = Inr (grid b ! 0 ! nat i)"
    using square_grid_cell [OF sq _ _ i, of 0] six by simp
  have c1: "cell b 1 i = Inr (grid b ! 1 ! nat i)"
    using square_grid_cell [OF sq _ _ i, of 1] six by simp
  have c3: "cell b 3 i = Inr (grid b ! 3 ! nat i)"
    using square_grid_cell [OF sq _ _ i, of 3] six by simp
  have c4: "cell b 4 i = Inr (grid b ! 4 ! nat i)"
    using square_grid_cell [OF sq _ _ i, of 4] six by simp
  have c5: "cell b 5 i = Inr (grid b ! 5 ! nat i)"
    using square_grid_cell [OF sq _ _ i, of 5] six by simp
  have down: "num_cars_blocking_down b i =
      Inr (int (length (filter bot_glyph
                 [grid b ! 3 ! nat i, grid b ! 4 ! nat i, grid b ! 5 ! nat i])))"
    by (simp add: num_cars_blocking_down_def bump_if_def c3 c4 c5)
  have up: "num_cars_blocking_up b i c =
      Inr (if c = CHR ''|'' \<or> (c = CHR ''v'' \<and> grid b ! 1 ! nat i = CHR ''|'')
                  \<or> (c = CHR ''^'' \<and> grid b ! 3 ! nat i = CHR ''|'')
           then int (length (cars b)) + 1
           else int (length (filter top_glyph [grid b ! 1 ! nat i, grid b ! 0 ! nat i])))"
    by (simp add: num_cars_blocking_up_def may_go_up_def bump_if_def c0 c1 c3)
  show ?thesis
    by (simp only: blocker_term_def up down sum.case)
qed

lemma advanced_scan_free:
  "\<forall>j \<in> set js. cell b 2 j = Inr (CHR ''.'') \<Longrightarrow>
   advanced_scan b (js @ rest) n = advanced_scan b rest n"
  by (induction js) simp_all

lemma advanced_scan_hit:
  "cell b 2 i = Inr c \<Longrightarrow> c \<noteq> CHR ''.'' \<Longrightarrow>
   advanced_scan b (i # rest) n =
     (case blocker_term b i c of Inl e \<Rightarrow> Inl e | Inr t \<Rightarrow> Inr (n + t))"
  by simp

lemma advanced_scan_total:
  assumes sq: "square_grid b" and six: "6 \<le> bsize b"
  shows "\<forall>j \<in> set js. 0 \<le> j \<and> j < bsize b \<Longrightarrow> \<exists>m. advanced_scan b js n = Inr m"
proof (induction js)
  case Nil
  show ?case by simp
next
  case (Cons j js)
  then have j: "0 \<le> j" "j < bsize b" by simp_all
  have c: "cell b 2 j = Inr (grid b ! 2 ! nat j)"
    using square_grid_cell [OF sq _ _ j, of 2] six by simp
  show ?case
  proof (cases "grid b ! 2 ! nat j = CHR ''.''")
    case True
    with Cons c show ?thesis by simp
  next
    case False
    then show ?thesis
      by (simp add: c blocker_term_square [OF sq six j])
  qed
qed

lemma square_goal_cells:
  assumes sq: "square_grid b" and six: "6 \<le> bsize b"
  shows "\<exists>g. goal_cells b = Inr g"
proof -
  have "cell b 2 4 = Inr (grid b ! 2 ! 4)"
    using square_grid_cell [OF sq, of 2 4] six by simp
  moreover have "cell b 2 5 = Inr (grid b ! 2 ! 5)"
    using square_grid_cell [OF sq, of 2 5] six by simp
  ultimately show ?thesis by (auto simp: goal_cells_def)
qed

lemma goal_row_has_exit_glyph:
  assumes "goal_cells b = Inr True" "py_index (grid b) 2 = Inr exitRow"
  shows "CHR ''>'' \<in> set exitRow"
proof -
  from assms have "py_index exitRow 5 = Inr (CHR ''>'')"
    by (auto simp: goal_cells_def cell_def split: sum.splits if_splits)
  then show ?thesis by (rule py_index_Inr_mem)
qed

lemma heuristics_total:
  assumes sq: "square_grid b" and six: "6 \<le> bsize b"
    and row: "py_index (grid b) 2 = Inr exitRow" and ex: "CHR ''>'' \<in> set exitRow"
  shows "(\<exists>n. blocking_heuristic b = Inr n \<and> 0 \<le> n)
       \<and> (\<exists>m. advanced_heuristic b = Inr m \<and> 0 \<le> m)"
proof -
  from list_index_mem [OF ex] obtain k where k: "list_index exitRow (CHR ''>'') = Inr k" ..
  from list_index_Inr [OF k] have k0: "0 \<le> k" by simp
  have len: "int (length exitRow) = bsize b" by (rule square_grid_row [OF sq row])
  from square_goal_cells [OF sq six] obtain g where g: "goal_cells b = Inr g" ..
  have "\<exists>n. count_blocked exitRow [k + 1 .. bsize b - 1] 1 = Inr n \<and> 0 \<le> n"
    using count_blocked_upto [of "k + 1" "bsize b - 1" exitRow 1] k0 len by simp
  then obtain n where n: "blocking_heuristic b = Inr n" "0 \<le> n"
    using g row k by (cases g) (auto simp: blocking_heuristic_def)
  have "\<forall>j \<in> set [k + 1 .. bsize b - 1]. 0 \<le> j \<and> j < bsize b"
    using k0 by auto
  from advanced_scan_total [OF sq six this, of n]
  obtain m where m: "advanced_scan b [k + 1 .. bsize b - 1] n = Inr m" ..
  then have adv: "advanced_heuristic b = Inr m"
    by (simp add: advanced_heuristic_def n row k)
  from advanced_scan_ge [OF m] n have "0 \<le> m" by simp
  with adv n show ?thesis by blast
qed

lemma heuristics_raise:
  assumes ng: "goal_cells b = Inr False" and row: "py_index (grid b) 2 = Inr exitRow"
    and ex: "CHR ''>'' \<notin> set exitRow"
  shows "blocking_heuristic b = Inl ValueError \<and> advanced_heuristic b = Inl ValueError"
  using assms list_index_absent [OF ex]
  by (simp add: blocking_heuristic_def advanced_heuristic_def)

text \<open>C10: on a non-goal board whose row 2 holds no \<open>>\<close>, the lookup \<open>index(">")\<close> raises
  \<open>ValueError\<close> in \<open>blocking_heuristic\<close>, and so in \<open>advanced_heuristic\<close>, instead of a
  number. On a square board of size at least 6 whose row 2 holds a \<open>>\<close> that branch is not
  reached: both heuristics return a non-negative integer.\<close>

theorem heuristics_total_iff_exit_glyph:
  "(is_goal s = Inr False \<and> py_index (grid (s_board s)) 2 = Inr exitRow
      \<and> CHR ''>'' \<notin> set exitRow
    \<longrightarrow> blocking_heuristic (s_board s) = Inl ValueError
        \<and> advanced_heuristic (s_board s) = Inl ValueError)
   \<and> (square_grid (s_board s) \<and> 6 \<le> bsize (s_board s)
      \<and> py_index (grid (s_board s)) 2 = Inr exitRow \<and> CHR ''>'' \<in> set exitRow
    \<longrightarrow> (\<exists>n. blocking_heuristic (s_board s) = Inr n \<and> 0 \<le> n)
        \<and> (\<exists>m. advanced_heuristic (s_board s) = Inr m \<and> 0 \<le> m))"
  using heuristics_raise [of "s_board s" exitRow] heuristics_total [of "s_board s" exitRow]
  by (simp add: is_goal_def)

theorem heuristics_total_iff_exit_glyph_witness:
  "is_goal (ex_state ex5) = Inr False
   \<and> py_index (grid (s_board (ex_state ex5))) 2 = Inr ''...|..''
   \<and> CHR ''>'' \<notin> set ''...|..''
   \<and> blocking_heuristic (s_board (ex_state ex5)) = Inl ValueError
   \<and> advanced_heuristic (s_board (ex_state ex5)) = Inl ValueError
   \<and> square_grid (s_board (ex_state ex1)) \<and> 6 \<le> bsize (s_board (ex_state ex1))
   \<and> py_index (grid (s_board (ex_state ex1))) 2 = Inr ''.<>|.^''
   \<and> CHR ''>'' \<in> set ''.<>|.^''
   \<and> (\<exists>n. blocking_heuristic (s_board (ex_state ex1)) = Inr n \<and> 0 \<le> n)
   \<and> (\<exists>m. advanced_heuristic (s_board (ex_state ex1)) = Inr m \<and> 0 \<le> m)"
proof -
  have h5: "is_goal (ex_state ex5) = Inr False
     \<and> py_index (grid (s_board (ex_state ex5))) 2 = Inr ''...|..''
     \<and> CHR ''>'' \<notin> set ''...|..''"
    by code_simp
  have h1: "square_grid (s_board (ex_state ex1)) \<and> 6 \<le> bsize (s_board (ex_state ex1))
     \<and> py_index (grid (s_board (ex_state ex1))) 2 = Inr ''.<>|.^''
     \<and> CHR ''>'' \<in> set ''.<>|.^''"
    by code_simp
  from heuristics_total_iff_exit_glyph [of "ex_state ex5" "''...|..''"] h5
  have r5: "blocking_heuristic (s_board (ex_state ex5)) = Inl ValueError
     \<and> advanced_heuristic (s_board (ex_state ex5)) = Inl ValueError"
    by blast
  from heuristics_total_iff_exit_glyph [of "ex_state ex1" "''.<>|.^''"] h1
  have r1: "(\<exists>n. blocking_heuristic (s_board (ex_state ex1)) = Inr n \<and> 0 \<le> n)
     \<and> (\<exists>m. advanced_heuristic (s_board (ex_state ex1)) = Inr m \<and> 0 \<le> m)"
    by blast
  from h5 r5 h1 r1 show ?thesis by blast
qed

lemma square_exit_row:
  assumes "square_grid b" "6 \<le> bsize b"
  shows "py_index (grid b) 2 = Inr (grid b ! 2)"
  using assms by (simp add: py_index_in_range square_grid_def)

lemma advanced_as_scan:
  assumes sq: "square_grid b" and six: "6 \<le> bsize b"
    and k: "list_index (grid b ! 2) (CHR ''>'') = Inr k"
    and h: "blocking_heuristic b = Inr h"
  shows "advanced_heuristic b = advanced_scan b [k + 1 .. bsize b - 1] h"
  by (simp add: advanced_heuristic_def h square_exit_row [OF sq six] k)

lemma advanced_no_blocker:
  assumes sq: "square_grid b" and six: "6 \<le> bsize b"
    and k: "list_index (grid b ! 2) (CHR ''>'') = Inr k"
    and h: "blocking_heuristic b = Inr h"
    and free: "\<forall>j. k < j \<and> j < bsize b \<longrightarrow> grid b ! 2 ! nat j = CHR ''.''"
  shows "advanced_heuristic b = Inr h"
proof -
  from list_index_Inr [OF k] have k0: "0 \<le> k" by simp
  have "\<forall>j \<in> set [k + 1 .. bsize b - 1]. cell b 2 j = Inr (CHR ''.'')"
  proof
    fix j assume "j \<in> set [k + 1 .. bsize b - 1]"
    then have j: "0 \<le> j" "j < bsize b" "k < j" using k0 by auto
    from square_grid_cell [OF sq _ _ j(1,2), of 2] six free j
    show "cell b 2 j = Inr (CHR ''.'')" by simp
  qed
  from advanced_scan_free [OF this, of "[]" h] show ?thesis
    by (simp add: advanced_as_scan [OF sq six k h])
qed

lemma advanced_first_blocker:
  assumes sq: "square_grid b" and six: "6 \<le> bsize b"
    and k: "list_index (grid b ! 2) (CHR ''>'') = Inr k"
    and h: "blocking_heuristic b = Inr h"
    and i: "k < i" "i < bsize b"
    and occ: "grid b ! 2 ! nat i \<noteq> CHR ''.''"
    and free: "\<forall>j. k < j \<and> j < i \<longrightarrow> grid b ! 2 ! nat j = CHR ''.''"
  shows "advanced_heuristic b =
     Inr (h + min (if grid b ! 2 ! nat i = CHR ''|''
                      \<or> (grid b ! 2 ! nat i = CHR ''v'' \<and> grid b ! 1 ! nat i = CHR ''|'')
                      \<or> (grid b ! 2 ! nat i = CHR ''^'' \<and> grid b ! 3 ! nat i = CHR ''|'')
                   then int (length (cars b)) + 1
                   else int (length (filter top_glyph [grid b ! 1 ! nat i, grid b ! 0 ! nat i])))
                  (int (length (filter bot_glyph
                     [grid b ! 3 ! nat i, grid b ! 4 ! nat i, grid b ! 5 ! nat i]))))"
proof -
  from list_index_Inr [OF k] have k0: "0 \<le> k" by simp
  have i0: "0 \<le> i" using k0 i by simp
  have split: "[k + 1 .. bsize b - 1] = [k + 1 .. i - 1] @ i # [i + 1 .. bsize b - 1]"
    using i by (intro upto_split3) simp_all
  have pre: "\<forall>j \<in> set [k + 1 .. i - 1]. cell b 2 j = Inr (CHR ''.'')"
  proof
    fix j assume "j \<in> set [k + 1 .. i - 1]"
    then have j: "0 \<le> j" "j < bsize b" "k < j" "j < i" using k0 i by auto
    from square_grid_cell [OF sq _ _ j(1,2), of 2] six free j
    show "cell b 2 j = Inr (CHR ''.'')" by simp
  qed
  have ci: "cell b 2 i = Inr (grid b ! 2 ! nat i)"
    using square_grid_cell [OF sq _ _ i0 i(2), of 2] six by simp
  have "advanced_heuristic b = advanced_scan b (i # [i + 1 .. bsize b - 1]) h"
    unfolding advanced_as_scan [OF sq six k h] split
    by (rule advanced_scan_free [OF pre])
  also have "\<dots> = (case blocker_term b i (grid b ! 2 ! nat i) of
                      Inl e \<Rightarrow> Inl e | Inr t \<Rightarrow> Inr (h + t))"
    by (rule advanced_scan_hit [OF ci occ])
  finally show ?thesis
    by (simp only: blocker_term_square [OF sq six i0 i(2)] sum.case)
qed

text \<open>C3, as the code computes it: on a square non-goal board of size at least 6, with
  \<open>k\<close> the column of the first \<open>>\<close> of row 2 and \<open>h\<close> the blocking value, the advanced
  value is \<open>h\<close> when every cell of row 2 right of \<open>k\<close> is free. Otherwise, for the first
  non-free cell, at column \<open>i\<close>, it is \<open>h + min up down\<close>, where \<open>down\<close> is the number of
  cells of rows 3, 4, 5 in column \<open>i\<close> holding one of \<open>^ > < -\<close>, and \<open>up\<close> is the number
  of cells of rows 1, 0 in column \<open>i\<close> holding one of \<open>v > < -\<close>, except that \<open>up\<close> is the
  number of vehicles plus one when the blocker glyph is \<open>|\<close>, or \<open>v\<close> below a \<open>|\<close>, or
  \<open>^\<close> above a \<open>|\<close>.\<close>

theorem advanced_heuristic_spec:
  "is_goal s = Inr False \<and> square_grid (s_board s) \<and> 6 \<le> bsize (s_board s)
   \<and> list_index (grid (s_board s) ! 2) (CHR ''>'') = Inr k
   \<and> blocking_heuristic (s_board s) = Inr h
   \<longrightarrow>
   ((\<forall>j. k < j \<and> j < bsize (s_board s) \<longrightarrow> grid (s_board s) ! 2 ! nat j = CHR ''.'')
      \<longrightarrow> advanced_heuristic (s_board s) = Inr h)
   \<and> (k < i \<and> i < bsize (s_board s) \<and> grid (s_board s) ! 2 ! nat i \<noteq> CHR ''.''
      \<and> (\<forall>j. k < j \<and> j < i \<longrightarrow> grid (s_board s) ! 2 ! nat j = CHR ''.'')
      \<longrightarrow> advanced_heuristic (s_board s) =
          Inr (h + min
            (if grid (s_board s) ! 2 ! nat i = CHR ''|''
                \<or> (grid (s_board s) ! 2 ! nat i = CHR ''v''
                     \<and> grid (s_board s) ! 1 ! nat i = CHR ''|'')
                \<or> (grid (s_board s) ! 2 ! nat i = CHR ''^''
                     \<and> grid (s_board s) ! 3 ! nat i = CHR ''|'')
             then int (length (cars (s_board s))) + 1
             else int (length (filter top_glyph
                    [grid (s_board s) ! 1 ! nat i, grid (s_board s) ! 0 ! nat i])))
            (int (length (filter bot_glyph
               [grid (s_board s) ! 3 ! nat i, grid (s_board s) ! 4 ! nat i,
                grid (s_board s) ! 5 ! nat i])))))"
proof (intro impI conjI)
  assume a: "is_goal s = Inr False \<and> square_grid (s_board s) \<and> 6 \<le> bsize (s_board s)
   \<and> list_index (grid (s_board s) ! 2) (CHR ''>'') = Inr k
   \<and> blocking_heuristic (s_board s) = Inr h"
  assume "\<forall>j. k < j \<and> j < bsize (s_board s) \<longrightarrow> grid (s_board s) ! 2 ! nat j = CHR ''.''"
  with a show "advanced_heuristic (s_board s) = Inr h"
    by (intro advanced_no_blocker [of "s_board s" k h]) simp_all
next
  assume a: "is_goal s = Inr False \<and> square_grid (s_board s) \<and> 6 \<le> bsize (s_board s)
   \<and> list_index (grid (s_board s) ! 2) (CHR ''>'') = Inr k
   \<and> blocking_heuristic (s_board s) = Inr h"
  assume b: "k < i \<and> i < bsize (s_board s) \<and> grid (s_board s) ! 2 ! nat i \<noteq> CHR ''.''
      \<and> (\<forall>j. k < j \<and> j < i \<longrightarrow> grid (s_board s) ! 2 ! nat j = CHR ''.'')"
  from a b show "advanced_heuristic (s_board s) =
          Inr (h + min
            (if grid (s_board s) ! 2 ! nat i = CHR ''|''
                \<or> (grid (s_board s) ! 2 ! nat i = CHR ''v''
                     \<and> grid (s_board s) ! 1 ! nat i = CHR ''|'')
                \<or> (grid (s_board s) ! 2 ! nat i = CHR ''^''
                     \<and> grid (s_board s) ! 3 ! nat i = CHR ''|'')
             then int (length (cars (s_board s))) + 1
             else int (length (filter top_glyph
                    [grid (s_board s) ! 1 ! nat i, grid (s_board s) ! 0 ! nat i])))
            (int (length (filter bot_glyph
               [grid (s_board s) ! 3 ! nat i, grid (s_board s) ! 4 ! nat i,
                grid (s_board s) ! 5 ! nat i]))))"
    by (intro advanced_first_blocker [of "s_board s" k h i]) simp_all
qed

theorem advanced_heuristic_spec_witness:
  "is_goal (ex_state ex6) = Inr False \<and> square_grid (s_board (ex_state ex6))
   \<and> 6 \<le> bsize (s_board (ex_state ex6))
   \<and> list_index (grid (s_board (ex_state ex6)) ! 2) (CHR ''>'') = Inr 1
   \<and> blocking_heuristic (s_board (ex_state ex6)) = Inr 2
   \<and> grid (s_board (ex_state ex6)) ! 2 ! nat 4 = CHR ''^''
   \<and> advanced_heuristic (s_board (ex_state ex6)) = Inr 3
   \<and> is_goal (ex_state ex7) = Inr False \<and> square_grid (s_board (ex_state ex7))
   \<and> list_index (grid (s_board (ex_state ex7)) ! 2) (CHR ''>'') = Inr 2
   \<and> blocking_heuristic (s_board (ex_state ex7)) = Inr 1
   \<and> advanced_heuristic (s_board (ex_state ex7)) = Inr 1"
proof -
  have h6: "is_goal (ex_state ex6) = Inr False \<and> square_grid (s_board (ex_state ex6))
     \<and> 6 \<le> bsize (s_board (ex_state ex6))
     \<and> list_index (grid (s_board (ex_state ex6)) ! 2) (CHR ''>'') = Inr 1
     \<and> blocking_heuristic (s_board (ex_state ex6)) = Inr 2"
    by code_simp
  have g6: "grid (s_board (ex_state ex6)) = 
      [''....^.'', ''....v.'', ''<>..^.'', ''....v.'', ''...<>.'', ''....<>'']"
    "length (cars (s_board (ex_state ex6))) = 5" "bsize (s_board (ex_state ex6)) = 6"
    by (simp_all add: ex_state_def State_init_def ex6_def mk_board_def)
  have f6: "\<forall>j::int. 1 < j \<and> j < 4 \<longrightarrow> grid (s_board (ex_state ex6)) ! 2 ! nat j = CHR ''.''"
  proof (intro allI impI)
    fix j :: int assume "1 < j \<and> j < 4"
    then have "j = 2 \<or> j = 3" by arith
    then show "grid (s_board (ex_state ex6)) ! 2 ! nat j = CHR ''.''"
      by (auto simp: g6)
  qed
  have b6: "(1::int) < 4 \<and> 4 < bsize (s_board (ex_state ex6))
      \<and> grid (s_board (ex_state ex6)) ! 2 ! nat 4 \<noteq> CHR ''.''"
    by (simp add: g6)
  have r6: "advanced_heuristic (s_board (ex_state ex6)) = Inr 3"
    using advanced_heuristic_spec [of "ex_state ex6" 1 2 4] h6 f6 b6
    by (simp add: g6 top_glyph_def bot_glyph_def)
  have h7: "is_goal (ex_state ex7) = Inr False \<and> square_grid (s_board (ex_state ex7))
     \<and> 6 \<le> bsize (s_board (ex_state ex7))
     \<and> list_index (grid (s_board (ex_state ex7)) ! 2) (CHR ''>'') = Inr 2
     \<and> blocking_heuristic (s_board (ex_state ex7)) = Inr 1"
    by code_simp
  have g7: "grid (s_board (ex_state ex7)) =
      [''^.....'', ''v.....'', ''.<>...'', ''......'', ''......'', ''......'']"
    "bsize (s_board (ex_state ex7)) = 6"
    by (simp_all add: ex_state_def State_init_def ex7_def mk_board_def)
  have f7: "\<forall>j::int. 2 < j \<and> j < bsize (s_board (ex_state ex7))
      \<longrightarrow> grid (s_board (ex_state ex7)) ! 2 ! nat j = CHR ''.''"
  proof (intro allI impI)
    fix j :: int assume "2 < j \<and> j < bsize (s_board (ex_state ex7))"
    then have "j = 3 \<or> j = 4 \<or> j = 5" by (simp add: g7) arith
    then show "grid (s_board (ex_state ex7)) ! 2 ! nat j = CHR ''.''"
      by (auto simp: g7)
  qed
  have r7: "advanced_heuristic (s_board (ex_state ex7)) = Inr 1"
    using advanced_heuristic_spec [of "ex_state ex7" 2 1 0] h7 f7 by blast
  from h6 b6 r6 h7 r7 show ?thesis by (simp add: g6)
qed

text \<open>C3 as stated fails. On \<open>ex6\<close> the first blocker (column 4) has two occupied cells
  above and three below, yet the term added is 1, not 2. On \<open>ex3\<close> the first blocker is a
  \<open>|\<close> with a \<open>|\<close> above and below it, and the advanced value still exceeds the blocking
  value.\<close>

theorem advanced_heuristic_claim_fails:
  "is_goal (ex_state ex6) = Inr False
   \<and> blocking_heuristic ex6 = Inr 2 \<and> advanced_heuristic ex6 = Inr 3
   \<and> cell ex6 2 2 = Inr (CHR ''.'') \<and> cell ex6 2 3 = Inr (CHR ''.'')
   \<and> cell ex6 2 4 = Inr (CHR ''^'')
   \<and> length (filter (\<lambda>c. c \<noteq> CHR ''.'') [grid ex6 ! 0 ! 4, grid ex6 ! 1 ! 4]) = 2
   \<and> length (filter (\<lambda>c. c \<noteq> CHR ''.'') [grid ex6 ! 3 ! 4, grid ex6 ! 4 ! 4, grid ex6 ! 5 ! 4]) = 3
   \<and> advanced_heuristic ex6 \<noteq> Inr (2 + min 2 3)
   \<and> is_goal (ex_state ex3) = Inr False
   \<and> cell ex3 2 2 = Inr (CHR ''|'') \<and> cell ex3 1 2 = Inr (CHR ''|'')
   \<and> cell ex3 3 2 = Inr (CHR ''|'')
   \<and> blocking_heuristic ex3 = Inr 2 \<and> advanced_heuristic ex3 = Inr 3
   \<and> advanced_heuristic ex3 \<noteq> blocking_heuristic ex3"
  by code_simp

section \<open>Successors\<close>

lemma with_f_sel [simp]:
  "s_board (with_f s v) = s_board s" "s_hfn (with_f s v) = s_hfn s" "s_f (with_f s v) = v"
  "s_depth (with_f s v) = s_depth s" "s_parent (with_f s v) = s_parent s"
  "s_id (with_f s v) = s_id s"
  by (cases s; simp)+

lemma addNeighbour_Inr:
  assumes "addNeighbour M s cs ns = Inr ns'"
  shows "\<exists>n. ns' = ns @ [n] \<and> child_of M s cs n"
  using assms
  by (auto simp: addNeighbour_def Board_init_def State_init_def child_of_def Let_def
      split: sum.splits)

lemma slide_Inr:
  "slide M s i look dest ys ns = Inr ns' \<Longrightarrow>
   \<exists>rest. ns' = ns @ rest
     \<and> list_all2 (\<lambda>y n. child_of M s
          ((cars (s_board s))[i := set_coord (cars (s_board s) ! i) (dest y)]) n)
        (takeWhile (\<lambda>y. look y = Inr (CHR ''.'')) ys) rest"
proof (induction ys arbitrary: ns)
  case Nil
  then show ?case by simp
next
  case (Cons y ys)
  from Cons.prems obtain c where c: "look y = Inr c"
    by (auto split: sum.splits)
  show ?case
  proof (cases "c = CHR ''.''")
    case False
    with Cons.prems c show ?thesis by simp
  next
    case True
    with Cons.prems c obtain ns1 where
      a: "addNeighbour M s
            ((cars (s_board s))[i := set_coord (cars (s_board s) ! i) (dest y)]) ns = Inr ns1"
      and r: "slide M s i look dest ys ns1 = Inr ns'"
      by (auto split: sum.splits)
    from addNeighbour_Inr [OF a] obtain n where
      n: "ns1 = ns @ [n]"
         "child_of M s ((cars (s_board s))[i := set_coord (cars (s_board s) ! i) (dest y)]) n"
      by blast
    from Cons.IH [OF r] obtain rest where
      rest: "ns' = ns1 @ rest"
        "list_all2 (\<lambda>y n. child_of M s
            ((cars (s_board s))[i := set_coord (cars (s_board s) ! i) (dest y)]) n)
          (takeWhile (\<lambda>y. look y = Inr (CHR ''.'')) ys) rest"
      by blast
    show ?thesis
      using n rest c True by (intro exI [of _ "n # rest"]) simp
  qed
qed

lemma addVerticalNeighbours_Inr:
  assumes "addVerticalNeighbours M s i ns = Inr ns'"
    and "orientation (cars (s_board s) ! i) \<noteq> ''h''"
  shows "\<exists>blk. ns' = ns @ blk \<and> moves_of M s i blk"
proof -
  let ?car = "cars (s_board s) ! i"
  let ?look = "\<lambda>y. cell (s_board s) y (fix_coord ?car)"
  from assms(1) obtain ns1 where
    a: "slide M s i ?look (\<lambda>y. y) (rev [0 .. var_coord ?car - 1]) ns = Inr ns1"
    and b: "slide M s i ?look (\<lambda>y. y - car_length ?car + 1)
              [var_coord ?car + car_length ?car .. bsize (s_board s) - 1] ns1 = Inr ns'"
    by (auto simp: addVerticalNeighbours_def Let_def split: if_splits sum.splits)
  have look: "look_cell s i = ?look"
    using assms(2) by (intro ext) (simp add: look_cell_def)
  from slide_Inr [OF a] obtain r1 where r1: "ns1 = ns @ r1"
    "list_all2 (\<lambda>y n. child_of M s (moved s i y) n) (neg_run s i) r1"
    unfolding neg_run_def look moved_def set_coord_def by blast
  from slide_Inr [OF b] obtain r2 where r2: "ns' = ns1 @ r2"
    "list_all2 (\<lambda>y n. child_of M s (moved s i (y - car_length ?car + 1)) n) (pos_run s i) r2"
    unfolding pos_run_def look moved_def set_coord_def by blast
  have "moves_of M s i (r1 @ r2)"
    unfolding moves_of_def using r1(2) r2(2) by blast
  with r1(1) r2(1) show ?thesis by simp
qed

lemma addHorizontalNeighbours_Inr:
  assumes "addHorizontalNeighbours M s i ns = Inr ns'"
    and "orientation (cars (s_board s) ! i) = ''h''"
  shows "\<exists>blk. ns' = ns @ blk \<and> moves_of M s i blk"
proof -
  let ?car = "cars (s_board s) ! i"
  let ?look = "\<lambda>x. cell (s_board s) (fix_coord ?car) x"
  from assms(1) obtain ns1 where
    a: "slide M s i ?look (\<lambda>y. y) (rev [0 .. var_coord ?car - 1]) ns = Inr ns1"
    and b: "slide M s i ?look (\<lambda>y. y - car_length ?car + 1)
              [var_coord ?car + car_length ?car .. bsize (s_board s) - 1] ns1 = Inr ns'"
    by (auto simp: addHorizontalNeighbours_def Let_def split: if_splits sum.splits)
  have look: "look_cell s i = ?look"
    using assms(2) by (intro ext) (simp add: look_cell_def)
  from slide_Inr [OF a] obtain r1 where r1: "ns1 = ns @ r1"
    "list_all2 (\<lambda>y n. child_of M s (moved s i y) n) (neg_run s i) r1"
    unfolding neg_run_def look moved_def set_coord_def by blast
  from slide_Inr [OF b] obtain r2 where r2: "ns' = ns1 @ r2"
    "list_all2 (\<lambda>y n. child_of M s (moved s i (y - car_length ?car + 1)) n) (pos_run s i) r2"
    unfolding pos_run_def look moved_def set_coord_def by blast
  have "moves_of M s i (r1 @ r2)"
    unfolding moves_of_def using r1(2) r2(2) by blast
  with r1(1) r2(1) show ?thesis by simp
qed

lemma successors_loop_Inr:
  "successors_loop M s js ns = Inr ns' \<Longrightarrow>
   \<exists>blocks. ns' = ns @ concat blocks \<and> list_all2 (moves_of M s) js blocks"
proof (induction js arbitrary: ns)
  case Nil
  then show ?case by simp
next
  case (Cons j js)
  from Cons.prems obtain ns1 where
    a: "(if orientation (cars (s_board s) ! j) = ''h''
         then addHorizontalNeighbours M s j ns else addVerticalNeighbours M s j ns) = Inr ns1"
    and r: "successors_loop M s js ns1 = Inr ns'"
    by (auto split: sum.splits)
  from a obtain blk where blk: "ns1 = ns @ blk" "moves_of M s j blk"
    using addHorizontalNeighbours_Inr [of M s j ns ns1] addVerticalNeighbours_Inr [of M s j ns ns1]
    by (auto split: if_splits)
  from Cons.IH [OF r] obtain blocks where
    blocks: "ns' = ns1 @ concat blocks" "list_all2 (moves_of M s) js blocks"
    by blast
  show ?case
    using blk blocks by (intro exI [of _ "blk # blocks"]) simp
qed

lemma get_successors_Inr:
  assumes "get_successors M s = Inr ns"
  shows "\<exists>blocks. ns = concat blocks
           \<and> list_all2 (moves_of M s) [0 ..< length (cars (s_board s))] blocks"
  using successors_loop_Inr [of M s _ "[]" ns] assms by (simp add: get_successors_def)

lemma takeWhile_upto_mem:
  "y0 \<in> set (takeWhile P [a .. b]) \<Longrightarrow> a \<le> y0 \<and> y0 \<le> b \<and> (\<forall>y. a \<le> y \<and> y \<le> y0 \<longrightarrow> P y)"
proof (induction "nat (b + 1 - a)" arbitrary: a)
  case 0
  then have "[a .. b] = []" by simp
  with "0.prems" show ?case by simp
next
  case (Suc m)
  then have le: "a \<le> b" by simp
  from Suc.prems have pa: "P a" and mem: "y0 = a \<or> y0 \<in> set (takeWhile P [a + 1 .. b])"
    by (auto simp: upto_rec1 [OF le] split: if_splits)
  from mem show ?case
  proof
    assume "y0 = a"
    with pa le show ?thesis by auto
  next
    assume r: "y0 \<in> set (takeWhile P [a + 1 .. b])"
    have "m = nat (b + 1 - (a + 1))" using Suc.hyps(2) by simp
    from Suc.hyps(1) [OF this r]
    have ih: "a + 1 \<le> y0" "y0 \<le> b" "\<forall>y. a + 1 \<le> y \<and> y \<le> y0 \<longrightarrow> P y" by auto
    have "P y" if "a \<le> y" "y \<le> y0" for y
      using that ih(3) pa by (cases "y = a") auto
    with ih show ?thesis by auto
  qed
qed

lemma takeWhile_rev_upto_mem:
  "y0 \<in> set (takeWhile P (rev [a .. b])) \<Longrightarrow>
   a \<le> y0 \<and> y0 \<le> b \<and> (\<forall>y. y0 \<le> y \<and> y \<le> b \<longrightarrow> P y)"
proof (induction "nat (b + 1 - a)" arbitrary: b)
  case 0
  then have "[a .. b] = []" by simp
  with "0.prems" show ?case by simp
next
  case (Suc m)
  then have le: "a \<le> b" by simp
  from Suc.prems have pb: "P b" and mem: "y0 = b \<or> y0 \<in> set (takeWhile P (rev [a .. b - 1]))"
    by (auto simp: upto_rec2 [OF le] split: if_splits)
  from mem show ?case
  proof
    assume "y0 = b"
    with pb le show ?thesis by auto
  next
    assume r: "y0 \<in> set (takeWhile P (rev [a .. b - 1]))"
    have "m = nat (b - 1 + 1 - a)" using Suc.hyps(2) by simp
    from Suc.hyps(1) [OF this r]
    have ih: "a \<le> y0" "y0 \<le> b - 1" "\<forall>y. y0 \<le> y \<and> y \<le> b - 1 \<longrightarrow> P y" by auto
    have "P y" if "y0 \<le> y" "y \<le> b" for y
      using that ih(3) pb by (cases "y = b") auto
    with ih show ?thesis by auto
  qed
qed


lemma list_all2_right_mem:
  assumes "list_all2 Q ys r" "n \<in> set r"
  shows "\<exists>y \<in> set ys. Q y n"
  using assms by (induction rule: list_all2_induct) auto


lemma moves_of_child:
  assumes "moves_of M s i blk" "n \<in> set blk"
  shows "\<exists>v. child_of M s (moved s i v) n \<and> clear_move s i v"
proof -
  let ?var = "var_coord (cars (s_board s) ! i)"
  let ?len = "car_length (cars (s_board s) ! i)"
  from assms(1) obtain r1 r2 where blk: "blk = r1 @ r2"
    and r1: "list_all2 (\<lambda>y n. child_of M s (moved s i y) n) (neg_run s i) r1"
    and r2: "list_all2 (\<lambda>y n. child_of M s (moved s i (y - ?len + 1)) n) (pos_run s i) r2"
    unfolding moves_of_def by blast
  from assms(2) blk consider "n \<in> set r1" | "n \<in> set r2" by auto
  then show ?thesis
  proof cases
    case 1
    from list_all2_right_mem [OF r1 1] obtain y where
      y: "y \<in> set (neg_run s i)" "child_of M s (moved s i y) n" by blast
    from takeWhile_rev_upto_mem [OF y(1) [unfolded neg_run_def]]
    have "clear_move s i y" unfolding clear_move_def by auto
    with y(2) show ?thesis by blast
  next
    case 2
    from list_all2_right_mem [OF r2 2] obtain y where
      y: "y \<in> set (pos_run s i)" "child_of M s (moved s i (y - ?len + 1)) n" by blast
    from takeWhile_upto_mem [OF y(1) [unfolded pos_run_def]]
    have "clear_move s i (y - ?len + 1)" unfolding clear_move_def by auto
    with y(2) show ?thesis by blast
  qed
qed

lemma get_successors_child:
  assumes "get_successors M s = Inr ns" "n \<in> set ns"
  shows "\<exists>i v. i < length (cars (s_board s)) \<and> child_of M s (moved s i v) n
            \<and> clear_move s i v"
proof -
  from get_successors_Inr [OF assms(1)] obtain blocks where
    b: "ns = concat blocks"
       "list_all2 (moves_of M s) [0 ..< length (cars (s_board s))] blocks"
    by blast
  from assms(2) b(1) obtain blk where blk: "blk \<in> set blocks" "n \<in> set blk" by auto
  from list_all2_right_mem [OF b(2) blk(1)] obtain i where
    i: "i < length (cars (s_board s))" "moves_of M s i blk" by auto
  from moves_of_child [OF i(2) blk(2)] i(1) show ?thesis by blast
qed

lemma ex8_succs: "get_successors standard_module (ex_state ex8) = Inr ex8_succs"
proof -
  have "isl (get_successors standard_module (ex_state ex8)) = False" by code_simp
  then show ?thesis
    by (cases "get_successors standard_module (ex_state ex8)") (simp_all add: ex8_succs_def)
qed

lemma ex8_succs_cars:
  "map (\<lambda>n. cars (s_board n)) ex8_succs =
     [[hcar 2 1 2, vcar 4 1 3], [hcar 2 2 2, vcar 4 1 3],
      [hcar 2 0 2, vcar 4 0 3], [hcar 2 0 2, vcar 4 2 3], [hcar 2 0 2, vcar 4 3 3]]"
  unfolding ex8_succs_def by code_simp

section \<open>The successor generator returns\<close>











text \<open>C5: every successor of a state \<open>s\<close> has \<open>s\<close> as its parent, depth one more than
  \<open>s\<close>, the heuristic function of \<open>s\<close>, and \<open>f\<close> equal to its depth plus that heuristic on
  its own board. Its board keeps the name and the size, its grid is rebuilt from its vehicle
  list, its identity is derived from that grid, and its vehicle list is the parent's list
  with the \<open>var_coord\<close> of exactly one vehicle changed.\<close>

theorem successor_fields:
  "get_successors M s = Inr ns \<longrightarrow>
   (\<forall>n \<in> set ns.
      s_parent n = Some s \<and> s_depth n = s_depth s + 1 \<and> s_hfn n = s_hfn s
      \<and> (\<exists>h. s_hfn s (s_board n) = Inr h \<and> s_f n = s_depth n + h)
      \<and> name (s_board n) = name (s_board s) \<and> bsize (s_board n) = bsize (s_board s)
      \<and> construct_grid M (bsize (s_board s)) (cars (s_board n)) = Inr (grid (s_board n))
      \<and> s_id n = grid_id M (grid (s_board n))
      \<and> (\<exists>i v. i < length (cars (s_board s)) \<and> v \<noteq> var_coord (cars (s_board s) ! i)
            \<and> cars (s_board n) =
                (cars (s_board s))[i := (cars (s_board s) ! i)\<lparr>var_coord := v\<rparr>]))"
proof (intro impI ballI)
  fix n assume g: "get_successors M s = Inr ns" and n: "n \<in> set ns"
  from get_successors_child [OF g n] obtain i v where
    iv: "i < length (cars (s_board s))" "child_of M s (moved s i v) n" "clear_move s i v"
    by blast
  from iv(3) have "v \<noteq> var_coord (cars (s_board s) ! i)"
    by (auto simp: clear_move_def)
  with iv(1,2) show "s_parent n = Some s \<and> s_depth n = s_depth s + 1 \<and> s_hfn n = s_hfn s
      \<and> (\<exists>h. s_hfn s (s_board n) = Inr h \<and> s_f n = s_depth n + h)
      \<and> name (s_board n) = name (s_board s) \<and> bsize (s_board n) = bsize (s_board s)
      \<and> construct_grid M (bsize (s_board s)) (cars (s_board n)) = Inr (grid (s_board n))
      \<and> s_id n = grid_id M (grid (s_board n))
      \<and> (\<exists>i v. i < length (cars (s_board s)) \<and> v \<noteq> var_coord (cars (s_board s) ! i)
            \<and> cars (s_board n) =
                (cars (s_board s))[i := (cars (s_board s) ! i)\<lparr>var_coord := v\<rparr>])"
    unfolding child_of_def moved_def by auto
qed




theorem successor_fields_witness:
  "get_successors standard_module (ex_state ex8) = Inr ex8_succs
   \<and> ex8_succs ! 4 \<in> set ex8_succs
   \<and> cars (s_board (ex8_succs ! 4)) = [hcar 2 0 2, vcar 4 3 3]
   \<and> s_parent (ex8_succs ! 4) = Some (ex_state ex8)
   \<and> s_depth (ex8_succs ! 4) = s_depth (ex_state ex8) + 1
   \<and> (\<exists>h. s_hfn (ex_state ex8) (s_board (ex8_succs ! 4)) = Inr h
          \<and> s_f (ex8_succs ! 4) = s_depth (ex8_succs ! 4) + h)
   \<and> s_f (ex8_succs ! 4) = 2"
proof -
  have len: "length ex8_succs = 5"
    using arg_cong [OF ex8_succs_cars, of length] by simp
  then have mem: "ex8_succs ! 4 \<in> set ex8_succs" by simp
  have c: "cars (s_board (ex8_succs ! 4)) = [hcar 2 0 2, vcar 4 3 3]"
    using arg_cong [OF ex8_succs_cars, of "\<lambda>xs. xs ! 4"] len by simp
  have f: "s_f (ex8_succs ! 4) = 2"
    unfolding ex8_succs_def by code_simp
  from successor_fields [of standard_module "ex_state ex8" ex8_succs] ex8_succs mem c f
  show ?thesis by blast
qed

section \<open>The instrumented search\<close>

lemma parents_nonempty: "parents s \<noteq> []"
  by (cases s) simp

lemma get_path_nonempty: "get_path s \<noteq> []"
  by (simp add: get_path_def parents_nonempty)

lemma a_star_node_expanded_iter_eq:
  "a_star_node_expanded_iter M fr ex n =
     (case a_star_iter M fr ex of
        Inl e \<Rightarrow> Inl e
      | Inr (Return (p, c)) \<Rightarrow> Inr (Return (p, c, n + 1))
      | Inr (Again (fs1, xs1)) \<Rightarrow> Inr (Again (fs1, xs1, n + 1)))"
  by (simp add: a_star_node_expanded_iter_def a_star_iter_def Let_def
      split: sum.splits prod.splits bool.splits)

lemma a_star_iter_Return:
  "a_star_iter M fr ex = Inr (Return (p, c)) \<Longrightarrow> p \<noteq> [] \<and> c = int (length p) - 1"
  by (auto simp: a_star_iter_def Let_def get_path_nonempty
      split: sum.splits prod.splits bool.splits if_splits)

lemma node_expanded_loop_sound:
  assumes "a_star_node_expanded_loop M fr ex n = Some r"
  shows "a_star_loop M fr ex = Some (drop_count r)"
  using assms
proof (induct rule: a_star_node_expanded_loop.raw_induct [rotated 1, consumes 1, case_names step])
  case (step loop M fr ex n r)
  show ?case
  proof (cases "length fr \<noteq> 0")
    case False
    with step(2) show ?thesis
      by (subst a_star_loop.simps) (auto simp: drop_count_def)
  next
    case True
    show ?thesis
    proof (cases "a_star_iter M fr ex")
      case (Inl e)
      with step(2) True show ?thesis
        by (subst a_star_loop.simps) (auto simp: a_star_node_expanded_iter_eq drop_count_def)
    next
      case (Inr it)
      show ?thesis
      proof (cases it)
        case (Return pc)
        with step(2) True Inr show ?thesis
          by (subst a_star_loop.simps)
            (auto simp: a_star_node_expanded_iter_eq drop_count_def split: prod.splits)
      next
        case (Again cfg)
        obtain fs1 xs1 where cfg: "cfg = (fs1, xs1)" by (cases cfg)
        from step(2) True Inr Again cfg have "loop M fs1 xs1 (n + 1) = Some r"
          by (simp add: a_star_node_expanded_iter_eq)
        from step(1) [OF this] True Inr Again cfg show ?thesis
          by (subst a_star_loop.simps) simp
      qed
    qed
  qed
qed

lemma node_expanded_loop_complete:
  assumes "a_star_loop M fr ex = Some r"
  shows "\<exists>r'. a_star_node_expanded_loop M fr ex n = Some r' \<and> drop_count r' = r"
  using assms
proof (induct arbitrary: n rule: a_star_loop.raw_induct [rotated 1, consumes 1, case_names step])
  case (step loop M fr ex r)
  show ?case
  proof (cases "length fr \<noteq> 0")
    case False
    with step(2) show ?thesis
      by (subst a_star_node_expanded_loop.simps) (auto simp: drop_count_def)
  next
    case True
    show ?thesis
    proof (cases "a_star_iter M fr ex")
      case (Inl e)
      with step(2) True show ?thesis
        by (subst a_star_node_expanded_loop.simps)
          (auto simp: a_star_node_expanded_iter_eq drop_count_def)
    next
      case (Inr it)
      show ?thesis
      proof (cases it)
        case (Return pc)
        with step(2) True Inr show ?thesis
          by (subst a_star_node_expanded_loop.simps)
            (auto simp: a_star_node_expanded_iter_eq drop_count_def split: prod.splits)
      next
        case (Again cfg)
        obtain fs1 xs1 where cfg: "cfg = (fs1, xs1)" by (cases cfg)
        from step(2) True Inr Again cfg have "loop M fs1 xs1 = Some r" by simp
        from step(1) [OF this, of "n + 1"] True Inr Again cfg show ?thesis
          by (subst a_star_node_expanded_loop.simps) (simp add: a_star_node_expanded_iter_eq)
      qed
    qed
  qed
qed

lemma node_expanded_loop_eq:
  "a_star_loop M fr ex = map_option drop_count (a_star_node_expanded_loop M fr ex n)"
proof (cases "a_star_node_expanded_loop M fr ex n")
  case None
  have "a_star_loop M fr ex = None"
  proof (rule ccontr)
    assume "a_star_loop M fr ex \<noteq> None"
    then obtain r where "a_star_loop M fr ex = Some r" by auto
    from node_expanded_loop_complete [OF this, of n] None show False by simp
  qed
  with None show ?thesis by simp
next
  case (Some r)
  from node_expanded_loop_sound [OF Some] Some show ?thesis by simp
qed

lemma node_expanded_loop_count:
  assumes "a_star_node_expanded_loop M fr ex n = Some r" "r = Inr (p, c, k)"
  shows "(p \<noteq> [] \<and> a_star_counting_loop M fr ex n = Some (Inr (p, c, k)))
   \<or> (p = [] \<and> c = - 1 \<and> k = - 1
       \<and> (\<exists>j. n \<le> j \<and> (length fr \<noteq> 0 \<longrightarrow> n < j)
             \<and> a_star_counting_loop M fr ex n = Some (Inr ([], - 1, j))))"
  using assms
proof (induct rule: a_star_node_expanded_loop.raw_induct [rotated 1, consumes 1, case_names step])
  case (step loop M fr ex n r)
  show ?case
  proof (cases "length fr \<noteq> 0")
    case False
    with step(2,3) show ?thesis
      by (subst (1 2) a_star_counting_loop.simps) auto
  next
    case True
    show ?thesis
    proof (cases "a_star_iter M fr ex")
      case (Inl e)
      with step(2,3) True show ?thesis
        by (simp add: a_star_node_expanded_iter_eq)
    next
      case (Inr it)
      show ?thesis
      proof (cases it)
        case (Return pc)
        obtain p' c' where pc: "pc = (p', c')" by (cases pc)
        from a_star_iter_Return [of M fr ex p' c'] Inr Return pc have "p' \<noteq> []" by simp
        with step(2,3) True Inr Return pc show ?thesis
          by (subst (1 2) a_star_counting_loop.simps)
            (auto simp: a_star_node_expanded_iter_eq)
      next
        case (Again cfg)
        obtain fs1 xs1 where cfg: "cfg = (fs1, xs1)" by (cases cfg)
        from step(2) True Inr Again cfg have "loop M fs1 xs1 (n + 1) = Some r"
          by (simp add: a_star_node_expanded_iter_eq)
        note ih = step(1) [OF this step(3)]
        have eq: "a_star_counting_loop M fr ex n = a_star_counting_loop M fs1 xs1 (n + 1)"
          using True Inr Again cfg by (subst a_star_counting_loop.simps) simp
        from ih show ?thesis
        proof
          assume "p \<noteq> [] \<and> a_star_counting_loop M fs1 xs1 (n + 1) = Some (Inr (p, c, k))"
          then show ?thesis by (simp add: eq)
        next
          assume a: "p = [] \<and> c = - 1 \<and> k = - 1
             \<and> (\<exists>j. n + 1 \<le> j \<and> (length fs1 \<noteq> 0 \<longrightarrow> n + 1 < j)
                  \<and> a_star_counting_loop M fs1 xs1 (n + 1) = Some (Inr ([], - 1, j)))"
          then obtain j where j: "n + 1 \<le> j"
            "a_star_counting_loop M fs1 xs1 (n + 1) = Some (Inr ([], - 1, j))"
            by blast
          then have "n \<le> j \<and> (length fr \<noteq> 0 \<longrightarrow> n < j)
              \<and> a_star_counting_loop M fr ex n = Some (Inr ([], - 1, j))"
            by (simp add: eq)
          with a show ?thesis by blast
        qed
      qed
    qed
  qed
qed

lemma drop_count_map_sum: "drop_count = map_sum id (\<lambda>(p, c, k). (p, c))"
  by (intro ext) (auto simp: drop_count_def split: sum.splits)

text \<open>C9, as the code computes it: \<open>a_star_node_expanded\<close> returns, diverges or raises
  exactly as \<open>a_star\<close> does, with the same path and cost. When it returns a path, its third
  component is the number of nodes popped from the frontier. When the frontier is exhausted
  it returns the empty path, cost \<open>-1\<close> and third component \<open>-1\<close>, although at least one
  node has been popped.\<close>

theorem a_star_node_expanded_refines:
  "a_star M b h = map_option (map_sum id (\<lambda>(p, c, k). (p, c))) (a_star_node_expanded M b h)
   \<and> (a_star_node_expanded M b h = Some (Inr (p, c, k)) \<longrightarrow>
        (p \<noteq> [] \<and> a_star_counting M b h = Some (Inr (p, c, k)))
        \<or> (p = [] \<and> c = - 1 \<and> k = - 1
            \<and> (\<exists>j. 1 \<le> j \<and> a_star_counting M b h = Some (Inr ([], - 1, j)))))"
proof (intro conjI impI)
  show "a_star M b h
      = map_option (map_sum id (\<lambda>(p, c, k). (p, c))) (a_star_node_expanded M b h)"
    unfolding drop_count_map_sum [symmetric]
    by (cases "h b")
      (simp_all add: a_star_def a_star_node_expanded_def Let_def drop_count_def
        node_expanded_loop_eq [where n = 0])
next
  assume r: "a_star_node_expanded M b h = Some (Inr (p, c, k))"
  then obtain v where v: "h b = Inr v"
    by (cases "h b") (simp_all add: a_star_node_expanded_def)
  let ?s = "State_init M b h v 0 None"
  let ?fr = "heappush [] ((s_f ?s, s_id ?s, 0), ?s)"
  from r v have "a_star_node_expanded_loop M ?fr [] 0 = Some (Inr (p, c, k))"
    by (simp add: a_star_node_expanded_def Let_def)
  from node_expanded_loop_count [OF this refl]
  have "(p \<noteq> [] \<and> a_star_counting_loop M ?fr [] 0 = Some (Inr (p, c, k)))
        \<or> (p = [] \<and> c = - 1 \<and> k = - 1
            \<and> (\<exists>j. 1 \<le> j \<and> a_star_counting_loop M ?fr [] 0 = Some (Inr ([], - 1, j))))"
    by (auto simp: heappush_def)
  then show "(p \<noteq> [] \<and> a_star_counting M b h = Some (Inr (p, c, k)))
        \<or> (p = [] \<and> c = - 1 \<and> k = - 1
            \<and> (\<exists>j. 1 \<le> j \<and> a_star_counting M b h = Some (Inr ([], - 1, j))))"
    by (simp add: a_star_counting_def v Let_def)
qed

lemma measured_result:
  assumes "map_option (map_sum id (\<lambda>(p, c, k). (length p, c, k))) r = Some (Inr (n, c, k))"
  obtains p where "r = Some (Inr (p, c, k))" "length p = n"
  using assms by (cases r) (auto simp: map_sum_def split: sum.splits)

lemma ex9_node_expanded:
  "a_star_node_expanded standard_module ex9 zero_heuristic = Some (Inr ([], - 1, - 1))"
proof -
  have "map_option (map_sum id (\<lambda>(p, c, k). (length p, c, k)))
          (a_star_node_expanded standard_module ex9 zero_heuristic) = Some (Inr (0, - 1, - 1))"
    by code_simp
  then show ?thesis by (rule measured_result) simp
qed

lemma ex9_counting:
  "a_star_counting standard_module ex9 zero_heuristic = Some (Inr ([], - 1, 1))"
proof -
  have "map_option (map_sum id (\<lambda>(p, c, k). (length p, c, k)))
          (a_star_counting standard_module ex9 zero_heuristic) = Some (Inr (0, - 1, 1))"
    by code_simp
  then show ?thesis by (rule measured_result) simp
qed

text \<open>C9 as stated fails on exhaustion: on the board without vehicles one node is popped,
  and the third component returned is \<open>-1\<close>.\<close>

theorem a_star_node_expanded_count_fails:
  "a_star_node_expanded standard_module ex9 zero_heuristic = Some (Inr ([], - 1, - 1))
   \<and> a_star_counting standard_module ex9 zero_heuristic = Some (Inr ([], - 1, 1))"
  using ex9_node_expanded ex9_counting by (rule conjI)

theorem a_star_node_expanded_refines_witness:
  "a_star_node_expanded standard_module ex9 zero_heuristic = Some (Inr ([], - 1, - 1))
   \<and> a_star standard_module ex9 zero_heuristic = Some (Inr ([], - 1))
   \<and> (\<exists>j. 1 \<le> j \<and> a_star_counting standard_module ex9 zero_heuristic = Some (Inr ([], - 1, j)))
   \<and> (\<exists>p. a_star_node_expanded standard_module ex10 blocking_heuristic = Some (Inr (p, 1, 2))
          \<and> p \<noteq> []
          \<and> a_star_counting standard_module ex10 blocking_heuristic = Some (Inr (p, 1, 2))
          \<and> a_star standard_module ex10 blocking_heuristic = Some (Inr (p, 1)))"
proof -
  note e9 = ex9_node_expanded
  note t9 = a_star_node_expanded_refines [of standard_module ex9 zero_heuristic "[]" "- 1" "- 1"]
  from t9 e9 have a9: "a_star standard_module ex9 zero_heuristic = Some (Inr ([], - 1))"
    by simp
  from t9 e9 have c9: "\<exists>j. 1 \<le> j
      \<and> a_star_counting standard_module ex9 zero_heuristic = Some (Inr ([], - 1, j))"
    by simp
  have "map_option (map_sum id (\<lambda>(p, c, k). (length p, c, k)))
          (a_star_node_expanded standard_module ex10 blocking_heuristic) = Some (Inr (2, 1, 2))"
    by code_simp
  then obtain p where
    e10: "a_star_node_expanded standard_module ex10 blocking_heuristic = Some (Inr (p, 1, 2))"
    and p: "length p = 2"
    by (rule measured_result)
  note t10 = a_star_node_expanded_refines [of standard_module ex10 blocking_heuristic p 1 2]
  from p have pne: "p \<noteq> []" by auto
  from t10 e10 pne
  have "a_star_counting standard_module ex10 blocking_heuristic = Some (Inr (p, 1, 2))
      \<and> a_star standard_module ex10 blocking_heuristic = Some (Inr (p, 1))"
    by simp
  with e9 a9 c9 e10 pne show ?thesis by blast
qed

section \<open>Runs of the search loops\<close>

lemma push_neighbours_append:
  "\<forall>n \<in> set ns. s_parent n = Some st \<Longrightarrow>
   push_neighbours fr ns = Inr (fr @ map (\<lambda>n. ((s_f n, s_id n, s_id st), n)) ns)"
  by (induction ns arbitrary: fr) (simp_all add: parent_id_def heappush_def)

lemma get_successors_parent:
  assumes "get_successors M st = Inr ns"
  shows "\<forall>n \<in> set ns. s_parent n = Some st"
  using get_successors_child [OF assms] by (auto simp: child_of_def)

lemma a_star_iter_discard:
  assumes "heappop fr = Inr ((key, st), fr1)" "s_id st \<in> s_id ` set ex"
  shows "a_star_iter M fr ex = Inr (Again (fr1, ex))"
  using assms by (auto simp: a_star_iter_def list_ex_iff image_iff)

lemma a_star_iter_expand:
  assumes "heappop fr = Inr ((key, st), fr1)" "s_id st \<notin> s_id ` set ex"
    and "is_goal st = Inr False" "get_successors M st = Inr ns"
  shows "a_star_iter M fr ex =
           Inr (Again (fr1 @ map (\<lambda>n. ((s_f n, s_id n, s_id st), n)) ns, ex @ [st]))"
  using assms push_neighbours_append [OF get_successors_parent [OF assms(4)], of fr1]
  by (auto simp: a_star_iter_def list_ex_iff image_iff)

lemma a_star_iter_Again:
  assumes "a_star_iter M fr ex = Inr (Again (fr', ex'))"
  shows "ex' = ex \<or> (\<exists>st. ex' = ex @ [st] \<and> s_id st \<notin> s_id ` set ex)"
  using assms
  by (auto simp: a_star_iter_def Let_def list_ex_iff image_iff
      split: sum.splits prod.splits bool.splits if_splits) metis+

lemma a_star_iter_Return_fresh:
  assumes "a_star_iter M fr ex = Inr (Return (p, c))"
  shows "p \<noteq> [] \<and> s_id (last p) \<notin> s_id ` set ex \<and> is_goal (last p) = Inr True"
proof -
  have l: "last (get_path s) = s" for s
    by (cases s) (simp add: get_path_def)
  from assms show ?thesis
    by (auto simp: a_star_iter_def Let_def list_ex_iff image_iff l get_path_nonempty
        split: sum.splits prod.splits bool.splits if_splits)
qed

lemma dfs_iter_discard:
  assumes "s_id st \<in> s_id ` set ex"
  shows "dfs_iter M (fr1 @ [st]) ex = Inr (Again (fr1, ex))"
  using assms by (auto simp: dfs_iter_def list_ex_iff image_iff)

lemma dfs_iter_expand:
  assumes "s_id st \<notin> s_id ` set ex" "is_goal st = Inr False" "get_successors M st = Inr ns"
  shows "dfs_iter M (fr1 @ [st]) ex =
           Inr (Again (fr1 @ sort_key (\<lambda>n. - s_id n) ns, ex @ [st]))"
  using assms by (auto simp: dfs_iter_def list_ex_iff image_iff)

lemma dfs_iter_Again:
  assumes "dfs_iter M fr ex = Inr (Again (fr', ex'))"
  shows "ex' = ex \<or> (\<exists>st. ex' = ex @ [st] \<and> s_id st \<notin> s_id ` set ex)"
  using assms
  by (auto simp: dfs_iter_def Let_def list_ex_iff image_iff
      split: sum.splits prod.splits bool.splits if_splits) metis+

lemma dfs_iter_Return_fresh:
  assumes "dfs_iter M fr ex = Inr (Return (p, c))"
  shows "p \<noteq> [] \<and> s_id (last p) \<notin> s_id ` set ex \<and> is_goal (last p) = Inr True"
proof -
  have l: "last (get_path s) = s" for s
    by (cases s) (simp add: get_path_def)
  from assms show ?thesis
    by (auto simp: dfs_iter_def Let_def list_ex_iff image_iff l get_path_nonempty
        split: sum.splits prod.splits bool.splits if_splits)
qed

lemma a_star_next_distinct:
  assumes "a_star_next M c c'" "distinct (map s_id (snd c))"
  shows "distinct (map s_id (snd c'))"
  using a_star_iter_Again [of M "fst c" "snd c" "fst c'" "snd c'"] assms
  by (auto simp: a_star_next_def)

lemma dfs_next_distinct:
  assumes "dfs_next M c c'" "distinct (map s_id (snd c))"
  shows "distinct (map s_id (snd c'))"
  using dfs_iter_Again [of M "fst c" "snd c" "fst c'" "snd c'"] assms
  by (auto simp: dfs_next_def)

lemma a_star_run_distinct:
  assumes "(a_star_next M)\<^sup>*\<^sup>* c c'" "distinct (map s_id (snd c))"
  shows "distinct (map s_id (snd c'))"
  using assms by (induction rule: rtranclp_induct) (auto intro: a_star_next_distinct)

lemma dfs_run_distinct:
  assumes "(dfs_next M)\<^sup>*\<^sup>* c c'" "distinct (map s_id (snd c))"
  shows "distinct (map s_id (snd c'))"
  using assms by (induction rule: rtranclp_induct) (auto intro: dfs_next_distinct)

lemma a_star_loop_next:
  "a_star_next M (fr, ex) (fr', ex') \<Longrightarrow> a_star_loop M fr ex = a_star_loop M fr' ex'"
  by (subst a_star_loop.simps) (simp add: a_star_next_def)

lemma dfs_loop_next:
  "dfs_next M (fr, ex) (fr', ex') \<Longrightarrow> dfs_loop M fr ex = dfs_loop M fr' ex'"
  by (subst dfs_loop.simps) (simp add: dfs_next_def)

lemma ex10_succs: "get_successors standard_module (ex_state ex10) = Inr ex10_succs"
proof -
  have "isl (get_successors standard_module (ex_state ex10)) = False" by code_simp
  then show ?thesis
    by (cases "get_successors standard_module (ex_state ex10)") (simp_all add: ex10_succs_def)
qed

lemma ex10_not_goal: "is_goal (ex_state ex10) = Inr False"
  by code_simp

lemma ex11_goal: "is_goal (ex_state ex11) = Inr True"
  by code_simp

lemma heappop_single: "heappop [x] = Inr (x, [])"
  by (simp add: heappop_def)

lemma get_path_root: "s_parent s = None \<Longrightarrow> get_path s = [s]"
  by (cases s) (simp add: get_path_def)

text \<open>C6: along every run of the loop of \<open>a_star\<close> and of \<open>dfs\<close> that starts with an
  empty explored list, the identities of the explored (accepted) states are pairwise
  distinct, and a state returned as the goal has an identity that no explored state has.
  A popped state whose identity is already explored is dropped, whatever its goal test or
  its expansion would give: the pass continues with the rest of the frontier and the same
  explored list. A popped state that is accepted and is no goal has all its successors
  pushed, with no test against the explored list.\<close>

theorem no_duplicate_acceptance:
  "((a_star_next M)\<^sup>*\<^sup>* (fr0, []) (fr, ex) \<longrightarrow> distinct (map s_id ex))
   \<and> ((dfs_next M)\<^sup>*\<^sup>* (st0, []) (st, ex) \<longrightarrow> distinct (map s_id ex))
   \<and> (a_star_iter M fr ex = Inr (Return (p, c))
        \<longrightarrow> p \<noteq> [] \<and> s_id (last p) \<notin> s_id ` set ex)
   \<and> (dfs_iter M st ex = Inr (Return (p, c))
        \<longrightarrow> p \<noteq> [] \<and> s_id (last p) \<notin> s_id ` set ex)
   \<and> (heappop fr = Inr ((key, s), fr1) \<and> s_id s \<in> s_id ` set ex
        \<longrightarrow> a_star_iter M fr ex = Inr (Again (fr1, ex)))
   \<and> (s_id s \<in> s_id ` set ex
        \<longrightarrow> dfs_iter M (st1 @ [s]) ex = Inr (Again (st1, ex)))
   \<and> (heappop fr = Inr ((key, s), fr1) \<and> s_id s \<notin> s_id ` set ex
        \<and> is_goal s = Inr False \<and> get_successors M s = Inr ns
        \<longrightarrow> a_star_iter M fr ex =
              Inr (Again (fr1 @ map (\<lambda>n. ((s_f n, s_id n, s_id s), n)) ns, ex @ [s])))
   \<and> (s_id s \<notin> s_id ` set ex \<and> is_goal s = Inr False \<and> get_successors M s = Inr ns
        \<longrightarrow> dfs_iter M (st1 @ [s]) ex =
              Inr (Again (st1 @ sort_key (\<lambda>n. - s_id n) ns, ex @ [s])))"
proof (intro conjI impI)
  assume "(a_star_next M)\<^sup>*\<^sup>* (fr0, []) (fr, ex)"
  from a_star_run_distinct [OF this] show "distinct (map s_id ex)" by simp
next
  assume "(dfs_next M)\<^sup>*\<^sup>* (st0, []) (st, ex)"
  from dfs_run_distinct [OF this] show "distinct (map s_id ex)" by simp
next
  assume a: "a_star_iter M fr ex = Inr (Return (p, c))"
  from a_star_iter_Return_fresh [OF a] show "p \<noteq> []" "s_id (last p) \<notin> s_id ` set ex"
    by simp_all
next
  assume a: "dfs_iter M st ex = Inr (Return (p, c))"
  from dfs_iter_Return_fresh [OF a] show "p \<noteq> []" "s_id (last p) \<notin> s_id ` set ex"
    by simp_all
next
  assume "heappop fr = Inr ((key, s), fr1) \<and> s_id s \<in> s_id ` set ex"
  then show "a_star_iter M fr ex = Inr (Again (fr1, ex))"
    using a_star_iter_discard by blast
next
  assume "s_id s \<in> s_id ` set ex"
  then show "dfs_iter M (st1 @ [s]) ex = Inr (Again (st1, ex))"
    by (rule dfs_iter_discard)
next
  assume "heappop fr = Inr ((key, s), fr1) \<and> s_id s \<notin> s_id ` set ex
        \<and> is_goal s = Inr False \<and> get_successors M s = Inr ns"
  then show "a_star_iter M fr ex =
              Inr (Again (fr1 @ map (\<lambda>n. ((s_f n, s_id n, s_id s), n)) ns, ex @ [s]))"
    using a_star_iter_expand by blast
next
  assume "s_id s \<notin> s_id ` set ex \<and> is_goal s = Inr False \<and> get_successors M s = Inr ns"
  then show "dfs_iter M (st1 @ [s]) ex =
              Inr (Again (st1 @ sort_key (\<lambda>n. - s_id n) ns, ex @ [s]))"
    using dfs_iter_expand by blast
qed

theorem no_duplicate_acceptance_witness:
  "a_star_iter standard_module [init_entry (ex_state ex10)] [] =
     Inr (Again (map (\<lambda>n. ((s_f n, s_id n, s_id (ex_state ex10)), n)) ex10_succs,
                 [ex_state ex10]))
   \<and> (a_star_next standard_module)\<^sup>*\<^sup>* ([init_entry (ex_state ex10)], [])
        (map (\<lambda>n. ((s_f n, s_id n, s_id (ex_state ex10)), n)) ex10_succs, [ex_state ex10])
   \<and> distinct (map s_id [ex_state ex10])
   \<and> a_star_iter standard_module [init_entry (ex_state ex10)] [ex_state ex10] =
       Inr (Again ([], [ex_state ex10]))
   \<and> a_star_iter standard_module [init_entry (ex_state ex11)] [] =
       Inr (Return ([ex_state ex11], 0))
   \<and> s_id (last [ex_state ex11]) \<notin> s_id ` set []
   \<and> dfs_iter standard_module ([] @ [ex_state ex10]) [] =
       Inr (Again ([] @ sort_key (\<lambda>n. - s_id n) ex10_succs, [] @ [ex_state ex10]))
   \<and> (dfs_next standard_module)\<^sup>*\<^sup>* ([ex_state ex10], [])
        (sort_key (\<lambda>n. - s_id n) ex10_succs, [ex_state ex10])
   \<and> dfs_iter standard_module ([] @ [ex_state ex10]) [ex_state ex10] =
       Inr (Again ([], [ex_state ex10]))
   \<and> dfs_iter standard_module [ex_state ex11] [] = Inr (Return ([ex_state ex11], 0))"
proof -
  let ?M = standard_module
  let ?s = "ex_state ex10"
  let ?g = "ex_state ex11"
  let ?fr1 = "map (\<lambda>n. ((s_f n, s_id n, s_id ?s), n)) ex10_succs"
  note T = no_duplicate_acceptance [where M = ?M]
  have pop: "heappop [init_entry ?s] = Inr ((fst (init_entry ?s), ?s), [])"
    by (simp add: heappop_single init_entry_def)
  have a1: "a_star_iter ?M [init_entry ?s] [] = Inr (Again (?fr1, [?s]))"
    using T [of _ "[init_entry ?s]" "[]" _ _ _ _ "fst (init_entry ?s)" ?s "[]" _ ex10_succs]
      pop ex10_not_goal ex10_succs by simp
  then have "a_star_next ?M ([init_entry ?s], []) (?fr1, [?s])"
    by (simp add: a_star_next_def)
  then have r1: "(a_star_next ?M)\<^sup>*\<^sup>* ([init_entry ?s], []) (?fr1, [?s])" ..
  from T [of "[init_entry ?s]" ?fr1 "[?s]"] r1 have d1: "distinct (map s_id [?s])"
    by blast
  have a2: "a_star_iter ?M [init_entry ?s] [?s] = Inr (Again ([], [?s]))"
    using T [of _ "[init_entry ?s]" "[?s]" _ _ _ _ "fst (init_entry ?s)" ?s "[]"] pop
    by simp
  have root: "s_parent ?g = None" by (simp add: ex_state_def State_init_def)
  have a3: "a_star_iter ?M [init_entry ?g] [] = Inr (Return ([?g], 0))"
    by (simp add: a_star_iter_def heappop_single init_entry_def ex11_goal
        get_path_root [OF root])
  from T [of _ "[init_entry ?g]" "[]" _ _ "[?g]" 0] a3
  have f3: "s_id (last [?g]) \<notin> s_id ` set []" by blast
  have b1: "dfs_iter ?M ([] @ [?s]) [] =
       Inr (Again ([] @ sort_key (\<lambda>n. - s_id n) ex10_succs, [] @ [?s]))"
    using T [of _ _ "[]" _ _ _ _ _ ?s _ "[]" ex10_succs] ex10_not_goal ex10_succs by simp
  then have "dfs_next ?M ([?s], []) (sort_key (\<lambda>n. - s_id n) ex10_succs, [?s])"
    by (simp add: dfs_next_def)
  then have r2: "(dfs_next ?M)\<^sup>*\<^sup>* ([?s], []) (sort_key (\<lambda>n. - s_id n) ex10_succs, [?s])" ..
  have b2: "dfs_iter ?M ([] @ [?s]) [?s] = Inr (Again ([], [?s]))"
    using T [of _ _ "[?s]" _ _ _ _ _ ?s _ "[]"] by simp
  have b3: "dfs_iter ?M [?g] [] = Inr (Return ([?g], 0))"
    by (simp add: dfs_iter_def ex11_goal get_path_root [OF root])
  from a1 r1 d1 a2 a3 f3 b1 r2 b2 b3 show ?thesis by blast
qed

section \<open>Depth-first order\<close>

lemma sort_desc_sorted: "sorted (rev (map s_id (sort_key (\<lambda>n. - s_id n) ns)))"
proof -
  have "sorted (map (\<lambda>n. - s_id n) (sort_key (\<lambda>n. - s_id n) ns))"
    by (rule sorted_sort_key)
  then show ?thesis
    by (simp add: sorted_map sorted_wrt_rev sorted_wrt_map rev_map [symmetric])
qed

lemma sorted_rev_last_least:
  assumes "sorted (rev (map f xs))" "x \<in> set xs"
  shows "f (last xs) \<le> f x"
proof -
  from assms(2) have ne: "xs \<noteq> []" by auto
  then obtain ys where xs: "xs = ys @ [last xs]"
    by (metis append_butlast_last_id)
  from assms(1) have "sorted (rev (map f (ys @ [last xs])))" using xs by simp
  then have "\<forall>y \<in> set ys. f (last xs) \<le> f y"
    by (simp add: sorted_wrt_append)
  with assms(2) xs show ?thesis
    by (metis Un_iff empty_iff empty_set insert_iff list.simps(15) order_refl set_append)
qed

lemma sort_desc_last:
  assumes "ns \<noteq> []"
  shows "last (sort_key (\<lambda>n. - s_id n) ns) \<in> set ns
       \<and> s_id (last (sort_key (\<lambda>n. - s_id n) ns)) = Min (s_id ` set ns)"
proof -
  let ?srt = "sort_key (\<lambda>n. - s_id n) ns"
  from assms have ne: "?srt \<noteq> []" by (metis length_0_conv length_sort)
  then have mem: "last ?srt \<in> set ns" by (metis last_in_set set_sort)
  have "s_id (last ?srt) \<le> s_id n" if "n \<in> set ns" for n
    using sorted_rev_last_least [OF sort_desc_sorted, of n ns] that by simp
  then have "Min (s_id ` set ns) = s_id (last ?srt)"
    using mem by (intro Min_eqI) auto
  with mem show ?thesis by simp
qed

lemma parents_unfold:
  "parents s = s # (case s_parent s of None \<Rightarrow> [] | Some q \<Rightarrow> parents q)"
  by (cases s) simp

lemma get_path_child:
  "s_parent n = Some s \<Longrightarrow> s_parent s = None \<Longrightarrow> get_path n = [s, n]"
  by (simp add: get_path_def parents_unfold [of n] parents_unfold [of s])

lemma dfs_loop_empty: "dfs_loop M [] ex = Some (Inr ([], - 1))"
  by (subst dfs_loop.simps) simp

lemma dfs_loop_discard:
  assumes "s_id s \<in> s_id ` set ex"
  shows "dfs_loop M (st1 @ [s]) ex = dfs_loop M st1 ex"
  using dfs_iter_discard [OF assms, of M st1] by (subst dfs_loop.simps) simp

lemma dfs_loop_goal:
  assumes "s_id s \<notin> s_id ` set ex" "is_goal s = Inr True"
  shows "dfs_loop M (st1 @ [s]) ex = Some (Inr (get_path s, int (length (get_path s)) - 1))"
proof -
  from assms have "dfs_iter M (st1 @ [s]) ex
      = Inr (Return (get_path s, int (length (get_path s)) - 1))"
    by (auto simp: dfs_iter_def Let_def list_ex_iff image_iff)
  then show ?thesis by (subst dfs_loop.simps) simp
qed

lemma dfs_loop_expand:
  assumes "s_id s \<notin> s_id ` set ex" "is_goal s = Inr False" "get_successors M s = Inr ns"
  shows "dfs_loop M (st1 @ [s]) ex
       = dfs_loop M (st1 @ sort_key (\<lambda>n. - s_id n) ns) (ex @ [s])"
  using dfs_iter_expand [OF assms, of st1] by (subst dfs_loop.simps) simp

lemma dfs_run_loop:
  assumes "(dfs_next M)\<^sup>*\<^sup>* c0 c"
  shows "dfs_loop M (fst c0) (snd c0) = dfs_loop M (fst c) (snd c)"
  using assms
proof (induction rule: rtranclp_induct)
  case base
  show ?case by simp
next
  case (step c c')
  from dfs_loop_next [of M "fst c" "snd c" "fst c'" "snd c'"] step show ?case by simp
qed

lemma dfs_final_loop:
  assumes "dfs_final M c = Some r"
  shows "dfs_loop M (fst c) (snd c) = Some r"
  using assms
  by (subst dfs_loop.simps)
    (auto simp: dfs_final_def split: if_splits sum.splits iter.splits)

text \<open>C8: \<open>dfs\<close> runs its loop on a stack holding one state, built from the initial board
  with the zero heuristic, \<open>f = 0\<close>, depth 0 and no parent, and an empty explored list. The
  loop ends with the empty path and \<open>-1\<close> on the empty stack; otherwise it pops the last
  element, whatever lies below it: an explored identity is dropped, a fresh goal ends the
  loop with its path, and a fresh state that is no goal is expanded, its successors going on
  top of the rest of the stack sorted by descending identity (a stable sort, so a
  rearrangement of the successors). The successor on top of the new stack has the least
  identity among the siblings and is popped next: when it is fresh and a goal, the loop
  ends with its path. Any two runs of passes from the initial stack that leave the loop
  leave it with the same result, which is the result of \<open>dfs\<close>.\<close>

theorem dfs_stack_order:
  "dfs M b = dfs_loop M [State b zero_heuristic 0 0 None (grid_id M (grid b))] []
   \<and> dfs_loop M [] ex = Some (Inr ([], - 1))
   \<and> (s_id s \<in> s_id ` set ex \<longrightarrow> dfs_loop M (st1 @ [s]) ex = dfs_loop M st1 ex)
   \<and> (s_id s \<notin> s_id ` set ex \<and> is_goal s = Inr True
        \<longrightarrow> dfs_loop M (st1 @ [s]) ex
              = Some (Inr (get_path s, int (length (get_path s)) - 1)))
   \<and> (s_id s \<notin> s_id ` set ex \<and> is_goal s = Inr False \<and> get_successors M s = Inr ns
        \<longrightarrow> (\<exists>srt. srt = sort_key (\<lambda>n. - s_id n) ns
               \<and> dfs_iter M (st1 @ [s]) ex = Inr (Again (st1 @ srt, ex @ [s]))
               \<and> dfs_loop M (st1 @ [s]) ex = dfs_loop M (st1 @ srt) (ex @ [s])
               \<and> set srt = set ns \<and> length srt = length ns
               \<and> sorted (rev (map s_id srt))
               \<and> (ns \<noteq> [] \<longrightarrow> last (st1 @ srt) \<in> set ns
                     \<and> s_id (last (st1 @ srt)) = Min (s_id ` set ns)
                     \<and> (s_id (last srt) \<notin> s_id ` set (ex @ [s])
                          \<and> is_goal (last srt) = Inr True
                        \<longrightarrow> dfs_loop M (st1 @ [s]) ex
                              = Some (Inr (get_path (last srt),
                                           int (length (get_path (last srt))) - 1))))))
   \<and> ((dfs_next M)\<^sup>*\<^sup>* ([State b zero_heuristic 0 0 None (grid_id M (grid b))], []) c1
        \<and> dfs_final M c1 = Some r1
        \<and> (dfs_next M)\<^sup>*\<^sup>* ([State b zero_heuristic 0 0 None (grid_id M (grid b))], []) c2
        \<and> dfs_final M c2 = Some r2
        \<longrightarrow> r1 = r2 \<and> dfs M b = Some r1)"
proof (intro conjI impI)
  show init: "dfs M b = dfs_loop M [State b zero_heuristic 0 0 None (grid_id M (grid b))] []"
    by (simp add: dfs_def State_init_def)
  show "dfs_loop M [] ex = Some (Inr ([], - 1))" by (rule dfs_loop_empty)
  {
    assume "s_id s \<in> s_id ` set ex"
    then show "dfs_loop M (st1 @ [s]) ex = dfs_loop M st1 ex" by (rule dfs_loop_discard)
  }
  {
    assume "s_id s \<notin> s_id ` set ex \<and> is_goal s = Inr True"
    then show "dfs_loop M (st1 @ [s]) ex
        = Some (Inr (get_path s, int (length (get_path s)) - 1))"
      using dfs_loop_goal by blast
  }
  {
    assume a: "s_id s \<notin> s_id ` set ex \<and> is_goal s = Inr False \<and> get_successors M s = Inr ns"
    let ?srt = "sort_key (\<lambda>n. - s_id n) ns"
    from a have it: "dfs_iter M (st1 @ [s]) ex = Inr (Again (st1 @ ?srt, ex @ [s]))"
      by (intro dfs_iter_expand) simp_all
    from a have lp: "dfs_loop M (st1 @ [s]) ex = dfs_loop M (st1 @ ?srt) (ex @ [s])"
      by (intro dfs_loop_expand) simp_all
    have top: "last (st1 @ ?srt) \<in> set ns
        \<and> s_id (last (st1 @ ?srt)) = Min (s_id ` set ns)
        \<and> (s_id (last ?srt) \<notin> s_id ` set (ex @ [s]) \<and> is_goal (last ?srt) = Inr True
            \<longrightarrow> dfs_loop M (st1 @ [s]) ex
                  = Some (Inr (get_path (last ?srt), int (length (get_path (last ?srt))) - 1)))"
      if ne: "ns \<noteq> []"
    proof -
      from ne have sne: "?srt \<noteq> []" by (metis length_0_conv length_sort)
      then have l: "last (st1 @ ?srt) = last ?srt" by simp
      from sne have split: "st1 @ ?srt = (st1 @ butlast ?srt) @ [last ?srt]" by simp
      have "dfs_loop M (st1 @ [s]) ex
                  = Some (Inr (get_path (last ?srt), int (length (get_path (last ?srt))) - 1))"
        if g: "s_id (last ?srt) \<notin> s_id ` set (ex @ [s]) \<and> is_goal (last ?srt) = Inr True"
        unfolding lp split using g by (intro dfs_loop_goal) simp_all
      with sort_desc_last [OF ne] l show ?thesis by simp
    qed
    show "\<exists>srt. srt = sort_key (\<lambda>n. - s_id n) ns
               \<and> dfs_iter M (st1 @ [s]) ex = Inr (Again (st1 @ srt, ex @ [s]))
               \<and> dfs_loop M (st1 @ [s]) ex = dfs_loop M (st1 @ srt) (ex @ [s])
               \<and> set srt = set ns \<and> length srt = length ns
               \<and> sorted (rev (map s_id srt))
               \<and> (ns \<noteq> [] \<longrightarrow> last (st1 @ srt) \<in> set ns
                     \<and> s_id (last (st1 @ srt)) = Min (s_id ` set ns)
                     \<and> (s_id (last srt) \<notin> s_id ` set (ex @ [s])
                          \<and> is_goal (last srt) = Inr True
                        \<longrightarrow> dfs_loop M (st1 @ [s]) ex
                              = Some (Inr (get_path (last srt),
                                           int (length (get_path (last srt))) - 1))))"
      using it lp top sort_desc_sorted [of ns] by (intro exI [of _ ?srt]) simp
  }
  {
    let ?c0 = "([State b zero_heuristic 0 0 None (grid_id M (grid b))], [])"
    assume a: "(dfs_next M)\<^sup>*\<^sup>* ?c0 c1 \<and> dfs_final M c1 = Some r1
        \<and> (dfs_next M)\<^sup>*\<^sup>* ?c0 c2 \<and> dfs_final M c2 = Some r2"
    from a dfs_run_loop [of M ?c0 c1] dfs_final_loop [of M c1 r1]
    have 1: "dfs M b = Some r1" by (simp add: init)
    from a dfs_run_loop [of M ?c0 c2] dfs_final_loop [of M c2 r2]
    have 2: "dfs M b = Some r2" by (simp add: init)
    from 1 2 show "r1 = r2" by simp
    from 1 show "dfs M b = Some r1" .
  }
qed

lemma ex10_children: "get_successors standard_module ex10_root = Inr ex10_children"
proof -
  have "isl (get_successors standard_module ex10_root) = False" by code_simp
  then show ?thesis
    by (cases "get_successors standard_module ex10_root") (simp_all add: ex10_children_def)
qed

lemma ex10_first_facts:
  "is_goal ex10_root = Inr False" "length ex10_children = 4"
  "s_id ex10_first \<noteq> s_id ex10_root" "is_goal ex10_first = Inr True"
  "cars (s_board ex10_first) = [hcar 2 4 2]"
  unfolding ex10_first_def ex10_children_def by code_simp+

theorem dfs_stack_order_witness:
  "is_goal ex10_root = Inr False
   \<and> get_successors standard_module ex10_root = Inr ex10_children
   \<and> ex10_children \<noteq> []
   \<and> ex10_first = last (sort_key (\<lambda>n. - s_id n) ex10_children)
   \<and> s_id ex10_first = Min (s_id ` set ex10_children)
   \<and> is_goal ex10_first = Inr True
   \<and> get_path ex10_first = [ex10_root, ex10_first]
   \<and> dfs standard_module ex10 = Some (Inr ([ex10_root, ex10_first], 1))
   \<and> (dfs_next standard_module)\<^sup>*\<^sup>* ([ex10_root], [])
        (sort_key (\<lambda>n. - s_id n) ex10_children, [ex10_root])
   \<and> dfs_final standard_module (sort_key (\<lambda>n. - s_id n) ex10_children, [ex10_root])
       = Some (Inr ([ex10_root, ex10_first], 1))"
proof -
  let ?M = standard_module
  let ?srt = "sort_key (\<lambda>n. - s_id n) ex10_children"
  note T = dfs_stack_order [where M = ?M and b = ex10]
  have root: "ex10_root = State ex10 zero_heuristic 0 0 None (grid_id ?M (grid ex10))"
    by (simp add: ex10_root_def State_init_def)
  have ne: "ex10_children \<noteq> []" using ex10_first_facts(2) by auto
  have fresh0: "s_id ex10_root \<notin> s_id ` set []" by simp
  have fresh1: "s_id (last ?srt) \<notin> s_id ` set ([] @ [ex10_root])"
    using ex10_first_facts(3) by (simp add: ex10_first_def)
  have goal1: "is_goal (last ?srt) = Inr True"
    using ex10_first_facts(4) by (simp add: ex10_first_def)
  have mem: "ex10_first \<in> set ex10_children"
    using ne unfolding ex10_first_def by (metis last_in_set length_0_conv length_sort set_sort)
  from get_successors_parent [OF ex10_children] mem
  have par: "s_parent ex10_first = Some ex10_root" by blast
  have rootp: "s_parent ex10_root = None" by (simp add: root)
  have path: "get_path ex10_first = [ex10_root, ex10_first]"
    using par rootp by (rule get_path_child)
  from T [of "[]" ex10_root "[]" ex10_children] ex10_first_facts(1) ex10_children ne
    fresh0 fresh1 goal1
  have E: "dfs_iter ?M ([] @ [ex10_root]) [] = Inr (Again ([] @ ?srt, [] @ [ex10_root]))"
    and Mn: "s_id (last ([] @ ?srt)) = Min (s_id ` set ex10_children)"
    and L: "dfs_loop ?M ([] @ [ex10_root]) []
        = Some (Inr (get_path (last ?srt), int (length (get_path (last ?srt))) - 1))"
    by blast+
  from L have run: "dfs ?M ex10 = Some (Inr ([ex10_root, ex10_first], 1))"
    using path by (simp add: dfs_def ex10_root_def [symmetric] ex10_first_def [symmetric])
  from E have "dfs_next ?M ([ex10_root], []) (?srt, [ex10_root])"
    by (simp add: dfs_next_def)
  then have steps: "(dfs_next ?M)\<^sup>*\<^sup>* ([ex10_root], []) (?srt, [ex10_root])" ..
  have srt: "?srt = butlast ?srt @ [ex10_first]"
    using ne unfolding ex10_first_def
    by (metis append_butlast_last_id length_0_conv length_sort)
  have "dfs_iter ?M (butlast ?srt @ [ex10_first]) [ex10_root]
      = Inr (Return (get_path ex10_first, int (length (get_path ex10_first)) - 1))"
    using ex10_first_facts(3,4) by (simp add: dfs_iter_def Let_def)
  then have fin: "dfs_final ?M (?srt, [ex10_root]) = Some (Inr ([ex10_root, ex10_first], 1))"
    using srt path ne by (simp add: dfs_final_def)
  note D = T [where ?c1.0 = "(?srt, [ex10_root])"
      and ?r1.0 = "Inr ([ex10_root, ex10_first], 1)"
      and ?c2.0 = "(?srt, [ex10_root])"
      and ?r2.0 = "Inr ([ex10_root, ex10_first], 1)", folded root]
  from D steps fin
  have "dfs ?M ex10 = Some (Inr ([ex10_root, ex10_first], 1))" by blast
  with ex10_first_facts(1,4) ex10_children ne Mn path steps fin
  show ?thesis by (simp add: ex10_first_def)
qed

section \<open>Termination of the searches\<close>


























end
